theory Spec2Isabelle
  imports Complex_Main "HOL-Library.Sublist" "HOL-Library.Log_Nat"
begin

section \<open>The hover preview of a Spotify track: play, stop and their callbacks\<close>

text \<open>
  The program is the \<open>Track\<close> component of the post "Creating a no-auth Spotify playlist
  preview with Next.js" (\<open>src/content/next-hsts-preload.mdx\<close>, lines 391--565): the
  handlers \<open>play\<close> and \<open>stop\<close>, the interval and timeout callbacks they register, and the
  \<open>then\<close>/\<open>catch\<close> callbacks of \<open>newAudio.play()\<close> in the version of
  "Dealing with browser constraints".

  How the embedding reads the React code:
  \<^item> every rendered track has a component instance, keyed by \<open>track.id\<close>, with the local
    state \<open>audio\<close>, \<open>fadeIn\<close>, \<open>fadeOut\<close>, \<open>interactable\<close> (\<open>useState\<close>); the
    global state \<open>interactableNotified\<close>, \<open>activeTrack\<close> (\<open>createGlobalState\<close>) is shared.
    The excerpt uses \<open>fadeOut\<close> and \<open>setFadeOut\<close> in \<open>stop\<close> without showing their
    \<open>useState\<close>; they are taken to be declared like \<open>fadeIn\<close>, initially null;
  \<^item> a handler runs on the state of the latest render, and its state updates are committed
    before the next event is dispatched; a callback created inside a handler keeps the
    values of the state variables the handler saw (its closure), while an object such as
    the audio element is shared by reference, so its volume is read when the callback runs;
  \<^item> the host is a store of audio elements, a table of registered timers (intervals and
    timeouts share one pool of handles) and a table of pending \<open>play()\<close> promises; the
    events are a call of \<open>play\<close> or \<open>stop\<close>, the firing of a timer and the settlement of a
    promise, in any order: the delay of a timer is recorded, but there is no clock;
  \<^item> a JavaScript number is an IEEE 754 double: a rational that \<open>to_double\<close> leaves
    fixed. Every arithmetic operation of the source rounds its exact result to the nearest
    double, ties to even; \<open>x.toFixed(2)\<close> is the exact value of \<open>x\<close> rounded to hundredths,
    and \<open>Number\<close> rounds that decimal to a double again. Infinities and NaN do not arise:
    the numbers of this program stay between 0 and 2000;
  \<^item> a timer handle is a positive integer, so \<open>if (fadeIn)\<close> is the test for non-null.
\<close>

type_synonym handle = nat

record track =
  track_id :: string
  preview_url :: "string option"

record audio_el =
  src :: string
  volume :: rat
  paused :: bool

record component =
  audio :: "handle option"
  fadeIn :: "handle option"
  fadeOut :: "handle option"
  interactable :: bool

text \<open>
  The callbacks handed to \<open>setInterval\<close> and \<open>setTimeout\<close>, each with what its closure
  holds: the audio element, and the value of \<open>fadeIn\<close> (\<open>fadeOut\<close>) at the render in which
  the handler ran.
\<close>

datatype callback =
  FadeInTick handle "handle option"
| FadeOutTick handle "handle option"
| PauseOnce handle

record timer =
  callback :: callback
  delay :: rat
  repeats :: bool

text \<open>
  The closure of the \<open>then\<close>/\<open>catch\<close> callbacks of one \<open>play()\<close> promise: the component
  whose \<open>setInteractable\<close> it calls and the value of \<open>interactableNotified\<close> it read.
\<close>

record play_closure =
  owner :: string
  notified_seen :: bool

datatype toast = Toast string | ToastSuccess string | ToastError string

record state =
  comps :: "string \<Rightarrow> component"
  interactableNotified :: bool
  activeTrack :: string
  audios :: "handle \<Rightarrow> audio_el"
  next_audio :: handle
  timers :: "handle \<Rightarrow> timer option"
  next_timer :: handle
  promises :: "handle \<Rightarrow> play_closure option"
  toasts :: "toast list"

definition init_component :: component where
  "init_component = \<lparr>audio = None, fadeIn = None, fadeOut = None, interactable = False\<rparr>"

definition init :: state where
  "init = \<lparr>comps = (\<lambda>_. init_component), interactableNotified = False, activeTrack = [],
     audios = (\<lambda>_. \<lparr>src = [], volume = 1, paused = True\<rparr>), next_audio = 0,
     timers = (\<lambda>_. None), next_timer = 1,
     promises = (\<lambda>_. None), toasts = []\<rparr>"

subsection \<open>JavaScript numbers\<close>

text \<open>Rounding to an integer, ties to the even one.\<close>

definition round_half_even :: "rat \<Rightarrow> int" where
  "round_half_even y =
     (let f = \<lfloor>y\<rfloor>; r = y - of_int f
      in if r < 1 / 2 then f else if 1 / 2 < r then f + 1 else if even f then f else f + 1)"

text \<open>
  The double nearest to \<open>x\<close>. In units of the smallest subnormal, \<open>2 ^ -1074\<close>, the
  doubles are the integers \<open>m * 2 ^ e\<close> with \<open>m < 2 ^ 53\<close>; \<open>e\<close> is the number of bits
  by which the integer part of \<open>\<bar>x\<bar>\<close> exceeds 53 bits (0 for the subnormals and the first
  normal binades), and \<open>m\<close> is \<open>\<bar>x\<bar> / 2 ^ e\<close> rounded, ties to even.
\<close>

definition to_double :: "rat \<Rightarrow> rat" where
  "to_double x =
     (let n = \<lfloor>\<bar>x\<bar> * 2 ^ 1074\<rfloor>;
          e = nat (bitlen n - 53);
          m = round_half_even (\<bar>x\<bar> * 2 ^ 1074 / 2 ^ e)
      in sgn x * (of_int m * 2 ^ e / 2 ^ 1074))"

text \<open>The literal \<open>0.05\<close> and the four operations.\<close>

definition c005 :: rat where
  "c005 = to_double 0.05"

definition js_add :: "rat \<Rightarrow> rat \<Rightarrow> rat" where
  "js_add a b = to_double (a + b)"

definition js_sub :: "rat \<Rightarrow> rat \<Rightarrow> rat" where
  "js_sub a b = to_double (a - b)"

definition js_mul :: "rat \<Rightarrow> rat \<Rightarrow> rat" where
  "js_mul a b = to_double (a * b)"

definition js_div :: "rat \<Rightarrow> rat \<Rightarrow> rat" where
  "js_div a b = to_double (a / b)"

text \<open>
  The decimal that \<open>x.toFixed(2)\<close> prints: the exact value of \<open>x\<close> rounded to hundredths,
  the larger one on a tie, the sign set aside first. \<open>Number(x.toFixed(2))\<close> is
  \<open>to_double (toFixed2 x)\<close>.
\<close>

definition toFixed2 :: "rat \<Rightarrow> rat" where
  "toFixed2 x =
     (if x < 0 then - (of_int (round (- x * 100)) / 100) else of_int (round (x * 100)) / 100)"

subsection \<open>State setters\<close>

definition setAudio :: "string \<Rightarrow> handle option \<Rightarrow> state \<Rightarrow> state" where
  "setAudio t v s = s\<lparr>comps := (comps s)(t := (comps s t)\<lparr>audio := v\<rparr>)\<rparr>"

definition setFadeIn :: "string \<Rightarrow> handle option \<Rightarrow> state \<Rightarrow> state" where
  "setFadeIn t v s = s\<lparr>comps := (comps s)(t := (comps s t)\<lparr>fadeIn := v\<rparr>)\<rparr>"

definition setFadeOut :: "string \<Rightarrow> handle option \<Rightarrow> state \<Rightarrow> state" where
  "setFadeOut t v s = s\<lparr>comps := (comps s)(t := (comps s t)\<lparr>fadeOut := v\<rparr>)\<rparr>"

definition setInteractable :: "string \<Rightarrow> bool \<Rightarrow> state \<Rightarrow> state" where
  "setInteractable t v s = s\<lparr>comps := (comps s)(t := (comps s t)\<lparr>interactable := v\<rparr>)\<rparr>"

definition setActiveTrack :: "string \<Rightarrow> state \<Rightarrow> state" where
  "setActiveTrack v s = s\<lparr>activeTrack := v\<rparr>"

definition setInteractableNotified :: "bool \<Rightarrow> state \<Rightarrow> state" where
  "setInteractableNotified v s = s\<lparr>interactableNotified := v\<rparr>"

definition show_toast :: "toast \<Rightarrow> state \<Rightarrow> state" where
  "show_toast x s = s\<lparr>toasts := toasts s @ [x]\<rparr>"

subsection \<open>The host: timers and audio elements\<close>

definition setInterval :: "callback \<Rightarrow> rat \<Rightarrow> state \<Rightarrow> handle \<times> state" where
  "setInterval cb d s =
     (next_timer s,
      s\<lparr>timers := (timers s)(next_timer s := Some \<lparr>callback = cb, delay = d, repeats = True\<rparr>),
        next_timer := Suc (next_timer s)\<rparr>)"

definition setTimeout :: "callback \<Rightarrow> rat \<Rightarrow> state \<Rightarrow> handle \<times> state" where
  "setTimeout cb d s =
     (next_timer s,
      s\<lparr>timers := (timers s)(next_timer s := Some \<lparr>callback = cb, delay = d, repeats = False\<rparr>),
        next_timer := Suc (next_timer s)\<rparr>)"

definition clearInterval :: "handle \<Rightarrow> state \<Rightarrow> state" where
  "clearInterval h s = s\<lparr>timers := (timers s)(h := None)\<rparr>"

text \<open>\<open>new Audio(url)\<close>: a fresh element, paused, at the default volume 1.\<close>

definition new_Audio :: "string \<Rightarrow> state \<Rightarrow> handle \<times> state" where
  "new_Audio url s =
     (next_audio s,
      s\<lparr>audios := (audios s)(next_audio s := \<lparr>src = url, volume = 1, paused = True\<rparr>),
        next_audio := Suc (next_audio s)\<rparr>)"

text \<open>
  The setter of \<open>volume\<close> throws (IndexSizeError) outside the range 0 to 1; the assignment
  is the last statement of the callbacks that make it, so a throw leaves the state as it was.
\<close>

definition set_volume :: "handle \<Rightarrow> rat \<Rightarrow> state \<Rightarrow> state" where
  "set_volume a v s =
     (if 0 \<le> v \<and> v \<le> 1 then s\<lparr>audios := (audios s)(a := (audios s a)\<lparr>volume := v\<rparr>)\<rparr> else s)"

text \<open>
  \<open>a.play()\<close> clears the paused attribute and returns a promise that the host settles
  later; the promise is filed under the element's handle with the closure of its callbacks.
  \<open>paused\<close> follows the calls the program makes (\<open>play()\<close> clears it, \<open>pause()\<close> sets
  it); whether the host has started the sound is the outcome of the promise.
\<close>

definition audio_play :: "handle \<Rightarrow> play_closure \<Rightarrow> state \<Rightarrow> state" where
  "audio_play a cl s =
     s\<lparr>audios := (audios s)(a := (audios s a)\<lparr>paused := False\<rparr>),
       promises := (promises s)(a := Some cl)\<rparr>"

definition audio_pause :: "handle \<Rightarrow> state \<Rightarrow> state" where
  "audio_pause a s = s\<lparr>audios := (audios s)(a := (audios s a)\<lparr>paused := True\<rparr>)\<rparr>"


text \<open>\<open>hay.includes(needle)\<close>.\<close>

fun includes_str :: "string \<Rightarrow> string \<Rightarrow> bool" where
  "includes_str [] needle = (needle = [])"
| "includes_str (c # cs) needle = (prefix needle (c # cs) \<or> includes_str cs needle)"

definition msg_not_interacted :: string where
  "msg_not_interacted = ''user didn'' @ [CHR 0x27] @ ''t interact with the document first''"

definition msg_interrupted :: string where
  "msg_interrupted = ''interrupted by a call to pause()''"

definition msg_click_anywhere :: string where
  "msg_click_anywhere = ''Please click anywhere on the page to preview tracks on hover.''"

text \<open>The apostrophe of this message is U+2019, written here as its three UTF-8 bytes.\<close>

definition msg_good_to_go :: string where
  "msg_good_to_go = ''Nice! You'' @ [CHR 0xE2, CHR 0x80, CHR 0x99] @ ''re good to go.''"

subsection \<open>The handlers\<close>

definition play :: "track \<Rightarrow> state \<Rightarrow> state" where
  "play tr s =
     (let c = comps s (track_id tr) in
      case preview_url tr of
        None \<Rightarrow> s
      | Some url \<Rightarrow>
          if audio c \<noteq> None \<or> url = [] then s
          else
            let (newAudio, s1) = new_Audio url s;
                s2 = set_volume newAudio 0 s1;
                s3 = setActiveTrack (track_id tr) s2;
                s4 = audio_play newAudio
                       \<lparr>owner = track_id tr, notified_seen = interactableNotified s\<rparr> s3;
                (timer, s5) = setInterval (FadeInTick newAudio (fadeIn c)) 100 s4;
                s6 = setFadeIn (track_id tr) (Some timer) s5
            in setAudio (track_id tr) (Some newAudio) s6)"

definition stop :: "string \<Rightarrow> state \<Rightarrow> state" where
  "stop t s =
     (let c = comps s t in
      case audio c of
        None \<Rightarrow> s
      | Some a \<Rightarrow>
          let originalVolume = volume (audios s a);
              s1 = setAudio t None s;
              s2 = setActiveTrack [] s1;
              s3 = (case fadeIn c of None \<Rightarrow> s2 | Some h \<Rightarrow> clearInterval h s2);
              (h, s4) = setInterval (FadeOutTick a (fadeOut c)) 100 s3;
              s5 = setFadeOut t (Some h) s4;
              (h', s6) = setTimeout (PauseOnce a) (js_mul (js_div originalVolume c005) 100) s5
          in s6)"

subsection \<open>The callbacks\<close>

fun run_callback :: "callback \<Rightarrow> state \<Rightarrow> state" where
  "run_callback (FadeInTick a seen) s =
     (if volume (audios s a) < 1
      then set_volume a (to_double (toFixed2 (js_add (volume (audios s a)) c005))) s
      else (case seen of None \<Rightarrow> s | Some h \<Rightarrow> clearInterval h s))"
| "run_callback (FadeOutTick a seen) s =
     (if volume (audios s a) > 0
      then set_volume a (to_double (toFixed2 (js_sub (volume (audios s a)) c005))) s
      else (case seen of None \<Rightarrow> s | Some h \<Rightarrow> clearInterval h s))"
| "run_callback (PauseOnce a) s = audio_pause a s"

text \<open>A timer fires: a timeout leaves the table first, an interval stays.\<close>

definition fire :: "handle \<Rightarrow> state \<Rightarrow> state" where
  "fire h s =
     (case timers s h of
        None \<Rightarrow> s
      | Some tm \<Rightarrow>
          run_callback (callback tm) (if repeats tm then s else clearInterval h s))"

definition then_cb :: "play_closure \<Rightarrow> state \<Rightarrow> state" where
  "then_cb cl s =
     (let s1 = setInteractable (owner cl) True s in
      if notified_seen cl
      then show_toast (ToastSuccess msg_good_to_go) (setInteractableNotified False s1)
      else s1)"

definition catch_cb :: "play_closure \<Rightarrow> string \<Rightarrow> state \<Rightarrow> state" where
  "catch_cb cl message s =
     (if includes_str message msg_not_interacted then
        (if \<not> notified_seen cl
         then setInteractableNotified True (show_toast (Toast msg_click_anywhere) s)
         else s)
      else if \<not> includes_str message msg_interrupted then show_toast (ToastError message) s
      else s)"

datatype outcome = Resolved | Rejected string

definition settle :: "handle \<Rightarrow> outcome \<Rightarrow> state \<Rightarrow> state" where
  "settle p out s =
     (case promises s p of
        None \<Rightarrow> s
      | Some cl \<Rightarrow>
          (let s' = s\<lparr>promises := (promises s)(p := None)\<rparr> in
           case out of Resolved \<Rightarrow> then_cb cl s' | Rejected message \<Rightarrow> catch_cb cl message s'))"

subsection \<open>Events and runs\<close>

datatype event = Play track | Stop string | Fire handle | Settle handle outcome

fun step :: "event \<Rightarrow> state \<Rightarrow> state" where
  "step (Play tr) s = play tr s"
| "step (Stop t) s = stop t s"
| "step (Fire h) s = fire h s"
| "step (Settle p out) s = settle p out s"

fun run :: "event list \<Rightarrow> state \<Rightarrow> state" where
  "run [] s = s"
| "run (e # es) s = run es (step e s)"

text \<open>The events that settle a promise.\<close>

fun is_settle :: "event \<Rightarrow> bool" where
  "is_settle (Settle p out) = True"
| "is_settle e = False"

subsection \<open>The volumes of a fade\<close>

text \<open>The volumes of a fade: the double nearest to \<open>k * 0.05\<close>.\<close>

definition grid :: "nat \<Rightarrow> rat" where
  "grid k = to_double (of_nat k / 20)"

subsection \<open>Sessions and their fade-in intervals\<close>

text \<open>The element that a registered timer fades in, when the timer is a fade-in interval.\<close>

fun fade_in_of :: "timer option \<Rightarrow> handle option" where
  "fade_in_of None = None"
| "fade_in_of (Some tm) = (case callback tm of FadeInTick a seen \<Rightarrow> Some a | _ \<Rightarrow> None)"

text \<open>
  The spec's state FadingIn of the session of track \<open>t\<close>: the component holds an element
  below full volume, and the interval in \<open>fadeIn\<close> is registered and fades that element in.
\<close>

definition fading_in :: "state \<Rightarrow> string \<Rightarrow> bool" where
  "fading_in s t =
     (case audio (comps s t) of
        None \<Rightarrow> False
      | Some a \<Rightarrow>
          (case fadeIn (comps s t) of
             None \<Rightarrow> False
           | Some h \<Rightarrow> fade_in_of (timers s h) = Some a \<and> volume (audios s a) < 1))"

text \<open>
  The invariant of the runs: session elements have been created, every registered fade-in
  interval is the \<open>fadeIn\<close> of a component whose session is the element it fades in, no
  two components share an element, and a non-empty marker names a component with a session.
\<close>

definition sessions_ok :: "state \<Rightarrow> bool" where
  "sessions_ok s =
     ((\<forall>t a. audio (comps s t) = Some a \<longrightarrow> a < next_audio s) \<and>
      (\<forall>h a. fade_in_of (timers s h) = Some a \<longrightarrow>
         (\<exists>t. audio (comps s t) = Some a \<and> fadeIn (comps s t) = Some h)) \<and>
      (\<forall>t t' a. audio (comps s t) = Some a \<and> audio (comps s t') = Some a \<longrightarrow> t = t') \<and>
      (activeTrack s \<noteq> [] \<longrightarrow> audio (comps s (activeTrack s)) \<noteq> None))"

subsection \<open>Timer handles held by the program\<close>

text \<open>The handle in the closure of a callback.\<close>

fun seen_of :: "callback \<Rightarrow> handle option" where
  "seen_of (FadeInTick a seen) = seen"
| "seen_of (FadeOutTick a seen) = seen"
| "seen_of (PauseOnce a) = None"

text \<open>What a handle refers to is not a pending timeout: it is free, or an interval.\<close>

fun not_timeout :: "timer option \<Rightarrow> bool" where
  "not_timeout None = True"
| "not_timeout (Some tm) = repeats tm"

text \<open>
  The invariant of the handles: every handle the program can pass to \<open>clearInterval\<close>
  (the \<open>fadeIn\<close> and \<open>fadeOut\<close> of a component, the handle in the closure of a registered
  callback) has been allocated and is not a pending timeout.
\<close>

definition handles_ok :: "state \<Rightarrow> bool" where
  "handles_ok s =
     ((\<forall>t h. fadeIn (comps s t) = Some h \<or> fadeOut (comps s t) = Some h \<longrightarrow>
         h < next_timer s \<and> not_timeout (timers s h)) \<and>
      (\<forall>h0 tm h. timers s h0 = Some tm \<and> seen_of (callback tm) = Some h \<longrightarrow>
         h < next_timer s \<and> not_timeout (timers s h)))"

subsection \<open>Host messages and inputs used in the examples\<close>

text \<open>
  The two rejection messages the post quotes from the browser console (lines 513 and 521),
  without the prefix that names the exception.
\<close>

text \<open>Three tracks: two with a preview, one without.\<close>

definition track_a :: track where
  "track_a = \<lparr>track_id = ''a'', preview_url = Some ''http://x/a.mp3''\<rparr>"

definition track_b :: track where
  "track_b = \<lparr>track_id = ''b'', preview_url = Some ''http://x/b.mp3''\<rparr>"

definition track_c :: track where
  "track_c = \<lparr>track_id = ''c'', preview_url = None\<rparr>"

definition chrome_not_interacted :: string where
  "chrome_not_interacted =
     ''play() failed because the user didn'' @ [CHR 0x27] @ ''t interact with the document first.''"

definition chrome_interrupted :: string where
  "chrome_interrupted = ''The play() request was interrupted by a call to pause().''"

section \<open>Closed forms of the handlers\<close>

lemmas setter_defs = setAudio_def setFadeIn_def setFadeOut_def setInteractable_def
  setActiveTrack_def setInteractableNotified_def show_toast_def

lemmas host_defs = setInterval_def setTimeout_def clearInterval_def new_Audio_def
  set_volume_def audio_play_def audio_pause_def

lemma track_a_simps [simp]:
  "track_id track_a = ''a''" "preview_url track_a = Some ''http://x/a.mp3''"
  by (simp_all add: track_a_def)

lemma track_b_simps [simp]:
  "track_id track_b = ''b''" "preview_url track_b = Some ''http://x/b.mp3''"
  by (simp_all add: track_b_def)

lemma track_c_simps [simp]:
  "track_id track_c = ''c''" "preview_url track_c = None"
  by (simp_all add: track_c_def)

lemma chrome_not_interacted_class [simp]:
  "includes_str chrome_not_interacted msg_not_interacted"
  by (simp add: chrome_not_interacted_def msg_not_interacted_def)

lemma chrome_interrupted_class [simp]:
  "includes_str chrome_interrupted msg_interrupted"
  "\<not> includes_str chrome_interrupted msg_not_interacted"
  by (simp_all add: chrome_interrupted_def msg_interrupted_def msg_not_interacted_def)

lemma play_skip:
  "audio (comps s (track_id tr)) \<noteq> None \<or> preview_url tr = None \<or> preview_url tr = Some []
   \<Longrightarrow> play tr s = s"
  by (auto simp: play_def Let_def split: option.splits)

lemma play_fresh:
  assumes "preview_url tr = Some url" "url \<noteq> []" "audio (comps s (track_id tr)) = None"
  shows "play tr s =
    s\<lparr>comps := (comps s)(track_id tr := (comps s (track_id tr))
            \<lparr>fadeIn := Some (next_timer s), audio := Some (next_audio s)\<rparr>),
      activeTrack := track_id tr,
      audios := (audios s)(next_audio s := \<lparr>src = url, volume = 0, paused = False\<rparr>),
      next_audio := Suc (next_audio s),
      timers := (timers s)(next_timer s :=
         Some \<lparr>callback = FadeInTick (next_audio s) (fadeIn (comps s (track_id tr))),
               delay = 100, repeats = True\<rparr>),
      next_timer := Suc (next_timer s),
      promises := (promises s)(next_audio s :=
         Some \<lparr>owner = track_id tr, notified_seen = interactableNotified s\<rparr>)\<rparr>"
  using assms by (intro state.equality) (simp_all add: play_def setter_defs host_defs Let_def)

lemma stop_skip: "audio (comps s t) = None \<Longrightarrow> stop t s = s"
  by (simp add: stop_def)

lemma stop_active:
  assumes "audio (comps s t) = Some a"
  shows "stop t s =
    s\<lparr>comps := (comps s)(t := (comps s t)\<lparr>audio := None, fadeOut := Some (next_timer s)\<rparr>),
      activeTrack := [],
      timers := ((case fadeIn (comps s t) of None \<Rightarrow> timers s | Some h \<Rightarrow> (timers s)(h := None)))
         (next_timer s :=
            Some \<lparr>callback = FadeOutTick a (fadeOut (comps s t)), delay = 100, repeats = True\<rparr>,
          Suc (next_timer s) :=
            Some \<lparr>callback = PauseOnce a,
                  delay = js_mul (js_div (volume (audios s a)) c005) 100, repeats = False\<rparr>),
      next_timer := Suc (Suc (next_timer s))\<rparr>"
  using assms
  by (intro state.equality)
     (simp_all add: stop_def setter_defs host_defs Let_def split: option.splits)

lemma stop_clears_audio: "audio (comps (stop t s) t) = None"
  by (cases "audio (comps s t)") (simp_all add: stop_skip stop_active)

section \<open>Ticks of the fade callbacks\<close>

text \<open>
  Rounding to a double moves a number of this range by less than a millionth, and
  \<open>toFixed(2)\<close> takes every number within a thousandth of a hundredth back to it: so a
  tick leads from one volume of the grid to the next, whatever the last bits of the sum are.
  The values that the examples name are computed exactly.
\<close>

lemma round_half_even_near: "\<bar>of_int (round_half_even y) - y\<bar> \<le> 1 / 2"
proof -
  have "of_int \<lfloor>y\<rfloor> \<le> y" "y < of_int \<lfloor>y\<rfloor> + 1" by linarith+
  then show ?thesis
    unfolding round_half_even_def Let_def by (simp add: abs_if) linarith
qed

lemma round_half_even_eqI:
  assumes "\<bar>y - of_int m\<bar> < 1 / 2"
  shows "round_half_even y = m"
proof (cases "of_int m \<le> y")
  case True
  with assms have "y < of_int m + 1 / 2" by (simp add: abs_if split: if_splits)
  with True have f: "\<lfloor>y\<rfloor> = m" by (intro floor_unique) simp_all
  with \<open>y < of_int m + 1 / 2\<close> show ?thesis by (simp add: round_half_even_def Let_def)
next
  case False
  with assms have lo: "of_int m - 1 / 2 < y" and hi: "y < of_int m"
    by (simp_all add: abs_if split: if_splits)
  then have f: "\<lfloor>y\<rfloor> = m - 1" by (intro floor_unique) simp_all
  with lo show ?thesis by (simp add: round_half_even_def Let_def)
qed

lemma round_half_even_nonneg: "0 \<le> y \<Longrightarrow> 0 \<le> round_half_even y"
proof -
  assume "0 \<le> y"
  then have "0 \<le> \<lfloor>y\<rfloor>" by simp
  then show ?thesis by (auto simp: round_half_even_def Let_def)
qed

lemma to_double_pos:
  assumes "0 < x" "P = 2 ^ 1074"
  shows "to_double x =
    of_int (round_half_even (x * P / 2 ^ nat (bitlen \<lfloor>x * P\<rfloor> - 53)))
      * 2 ^ nat (bitlen \<lfloor>x * P\<rfloor> - 53) / P"
  unfolding to_double_def Let_def assms(2) [symmetric] using assms(1) by simp

lemma to_double_zero [simp]: "to_double 0 = 0"
  unfolding to_double_def Let_def by (simp only: sgn_0 mult_zero_left)

lemma to_double_nonneg: "0 \<le> x \<Longrightarrow> 0 \<le> to_double x"
proof (cases "x = 0")
  case True
  then show ?thesis by simp
next
  case False
  assume "0 \<le> x"
  with False have pos: "0 < x" by simp
  define P :: rat where "P = 2 ^ 1074"
  have P: "0 < P" unfolding P_def by (rule zero_less_power) simp
  have "0 \<le> x * P / 2 ^ e" for e using pos P by simp
  then have "0 \<le> round_half_even (x * P / 2 ^ e)" for e by (rule round_half_even_nonneg)
  then show ?thesis
    unfolding to_double_pos [OF pos P_def] using P by simp
qed

lemma to_double_near:
  assumes "0 \<le> x"
  shows "\<bar>to_double x - x\<bar> \<le> x / 2 ^ 53 + 1 / 2 ^ 100"
proof (cases "x = 0")
  case True
  then show ?thesis by simp
next
  case False
  with assms have pos: "0 < x" by simp
  define P :: rat where "P = 2 ^ 1074"
  define X where "X = x * P"
  define n where "n = \<lfloor>X\<rfloor>"
  define e where "e = nat (bitlen n - 53)"
  define m where "m = round_half_even (X / 2 ^ e)"
  have P: "0 < P" unfolding P_def by (rule zero_less_power) simp
  have "(2::rat) ^ 101 \<le> 2 ^ 1074" by (rule power_increasing) simp_all
  then have Pbig: "2 ^ 101 \<le> P" by (simp only: P_def)
  have X: "0 < X" using pos P by (simp add: X_def)
  have td: "to_double x = of_int m * 2 ^ e / P"
    unfolding to_double_pos [OF pos P_def] m_def e_def n_def X_def ..
  have "\<bar>of_int m - X / 2 ^ e\<bar> \<le> 1 / 2"
    unfolding m_def by (rule round_half_even_near)
  then have "\<bar>of_int m - X / 2 ^ e\<bar> * 2 ^ e \<le> 1 / 2 * 2 ^ e"
    by (intro mult_right_mono) simp_all
  moreover have "of_int m * 2 ^ e - X = (of_int m - X / 2 ^ e) * 2 ^ e"
    by (simp add: field_simps)
  ultimately have err: "\<bar>of_int m * 2 ^ e - X\<bar> \<le> 2 ^ e / 2"
    by (simp add: abs_mult)
  have step: "(2::rat) ^ e / 2 \<le> X / 2 ^ 53 + 1 / 2"
  proof (cases "e = 0")
    case True
    with X show ?thesis by simp
  next
    case False
    then have b: "53 < bitlen n" by (simp add: e_def)
    then have npos: "0 < n" using bitlen_eq_zero_iff [of n] by (cases "0 < n") auto
    from bitlen_bounds [OF npos] have "2 ^ nat (bitlen n - 1) \<le> n" by simp
    moreover have "nat (bitlen n - 1) = e + 52" using b by (simp add: e_def)
    ultimately have "2 ^ (e + 52) \<le> n" by simp
    then have "(of_int (2 ^ (e + 52)) :: rat) \<le> of_int n" by (simp only: of_int_le_iff)
    then have "(2::rat) ^ (e + 52) \<le> of_int n" by simp
    also have "\<dots> \<le> X" by (simp add: n_def)
    finally have "(2::rat) ^ e * 2 ^ 52 \<le> X" by (simp add: power_add)
    then have "(2::rat) ^ e / 2 \<le> X / 2 ^ 53" by (simp add: field_simps)
    then show ?thesis by simp
  qed
  have "to_double x - x = (of_int m * 2 ^ e - X) / P"
    using P by (simp add: td X_def field_simps)
  then have "\<bar>to_double x - x\<bar> = \<bar>of_int m * 2 ^ e - X\<bar> / P"
    using P by (simp only: abs_divide abs_of_pos)
  also have "\<dots> \<le> (X / 2 ^ 53 + 1 / 2) / P"
    using err step P by (intro divide_right_mono) simp_all
  also have "\<dots> = x / 2 ^ 53 + 1 / (2 * P)"
    using P by (simp add: X_def field_simps)
  also have "\<dots> \<le> x / 2 ^ 53 + 1 / 2 ^ 100"
  proof -
    have "(2::rat) ^ 100 \<le> 2 * P" using Pbig by simp
    then have "1 / (2 * P) \<le> 1 / (2::rat) ^ 100"
      by (intro divide_left_mono) simp_all
    then show ?thesis by simp
  qed
  finally show ?thesis .
qed

lemma to_double_eq_round:
  assumes "0 < x" "k \<le> 1074"
      and "2 ^ 52 \<le> x * 2 ^ k" "x * 2 ^ k < 2 ^ 53"
      and "round_half_even (x * 2 ^ k) = m"
  shows "to_double x = of_int m / 2 ^ k"
proof -
  define j where "j = 1074 - k"
  define P :: rat where "P = 2 ^ 1074"
  have "P = 2 ^ (k + j)" unfolding P_def j_def using assms(2) by simp
  then have Pkj: "P = 2 ^ k * 2 ^ j" by (simp only: power_add)
  define y where "y = x * 2 ^ k"
  define n where "n = \<lfloor>x * P\<rfloor>"
  have X: "x * P = y * 2 ^ j" by (simp add: y_def Pkj)
  have lo: "(2::rat) ^ (52 + j) \<le> x * P"
    unfolding X using assms(3) by (simp add: y_def power_add mult_right_mono)
  have hi: "x * P < (2::rat) ^ (53 + j)"
    unfolding X using assms(4) by (simp add: y_def power_add mult_strict_right_mono)
  have "of_int (2 ^ (52 + j)) \<le> x * P" using lo by simp
  then have nlo: "2 ^ (52 + j) \<le> n" unfolding n_def by (simp only: le_floor_iff)
  have "of_int n \<le> x * P" by (simp add: n_def)
  from this hi have "(of_int n :: rat) < 2 ^ (53 + j)" by (rule le_less_trans)
  also have "(2::rat) ^ (53 + j) = of_int (2 ^ (53 + j))" by simp
  finally have nhi: "n < 2 ^ (53 + j)" by (simp only: of_int_less_iff)
  have "nat (int (53 + j)) = 53 + j" "nat (int (53 + j)) - 1 = 52 + j" by simp_all
  note nn = this
  have "bitlen n \<le> int (53 + j)"
    unfolding bitlen_le_iff_power nn using nhi by simp
  moreover have "int (53 + j) \<le> bitlen n"
    unfolding bitlen_ge_iff_power nn using nlo by simp
  ultimately have b: "bitlen n = int (53 + j)" by simp
  then have e: "nat (bitlen n - 53) = j" by simp
  have "x * P / 2 ^ j = y" by (simp add: X)
  moreover have "round_half_even y = m"
    using assms(5) by (simp add: y_def)
  ultimately have "to_double x = of_int m * 2 ^ j / P"
    unfolding to_double_pos [OF assms(1) P_def] n_def [symmetric] e by simp
  also have "\<dots> = of_int m / 2 ^ k" by (simp add: Pkj)
  finally show ?thesis .
qed

lemma to_double_eqI:
  assumes "0 < x" "k \<le> 1074"
      and "2 ^ 52 \<le> x * 2 ^ k" "x * 2 ^ k < 2 ^ 53"
      and "\<bar>x * 2 ^ k - of_int m\<bar> < 1 / 2"
  shows "to_double x = of_int m / 2 ^ k"
  using assms(1-4) by (rule to_double_eq_round) (rule round_half_even_eqI [OF assms(5)])

lemma to_double_bounds:
  assumes "0 \<le> x" "x \<le> 2"
  shows "x - 1 / 1000000 \<le> to_double x" "to_double x \<le> x + 1 / 1000000"
proof -
  have "\<bar>to_double x - x\<bar> \<le> x / 2 ^ 53 + 1 / 2 ^ 100"
    using assms(1) by (rule to_double_near)
  also have "\<dots> \<le> 2 / 2 ^ 53 + 1 / 2 ^ 100"
    using assms(2) by (simp add: divide_right_mono)
  also have "\<dots> \<le> 1 / 1000000" by simp
  finally have "\<bar>to_double x - x\<bar> \<le> 1 / 1000000" .
  then show "x - 1 / 1000000 \<le> to_double x" "to_double x \<le> x + 1 / 1000000"
    by linarith+
qed

lemma grid_0 [simp]: "grid 0 = 0"
  by (simp add: grid_def)

lemma grid_20 [simp]: "grid 20 = 1"
proof -
  have "to_double 1 = of_int (2 ^ 52) / 2 ^ 52"
    by (rule to_double_eqI) simp_all
  then show ?thesis by (simp add: grid_def)
qed

lemma c005_grid: "c005 = grid (Suc 0)"
  by (simp add: c005_def grid_def)

lemma grid_nonneg: "0 \<le> grid k"
  unfolding grid_def by (rule to_double_nonneg) simp

lemma grid_bounds:
  assumes "k \<le> 20"
  shows "of_nat k / 20 - 1 / 1000000 \<le> grid k" "grid k \<le> of_nat k / 20 + 1 / 1000000"
proof -
  from assms have "(of_nat k :: rat) \<le> 20" by simp
  then have "(0::rat) \<le> of_nat k / 20" "(of_nat k :: rat) / 20 \<le> 2" by simp_all
  then show "of_nat k / 20 - 1 / 1000000 \<le> grid k" "grid k \<le> of_nat k / 20 + 1 / 1000000"
    unfolding grid_def by (rule to_double_bounds)+
qed

lemma c005_bounds: "1 / 20 - 1 / 1000000 \<le> c005" "c005 \<le> 1 / 20 + 1 / 1000000"
  using grid_bounds [of "Suc 0"] by (simp_all add: c005_grid)

lemma grid_less_one: "k < 20 \<Longrightarrow> grid k < 1"
proof -
  assume k: "k < 20"
  then have "(of_nat k :: rat) \<le> 19" by simp
  moreover from k have "grid k \<le> of_nat k / 20 + 1 / 1000000" by (intro grid_bounds) simp
  ultimately show ?thesis by linarith
qed

lemma grid_le_one: "k \<le> 20 \<Longrightarrow> grid k \<le> 1"
  by (cases "k = 20") (simp_all add: grid_less_one less_imp_le)

lemma grid_pos: "0 < k \<Longrightarrow> k \<le> 20 \<Longrightarrow> 0 < grid k"
proof -
  assume k: "0 < k" "k \<le> 20"
  then have "(1 :: rat) \<le> of_nat k" by simp
  moreover from k have "of_nat k / 20 - 1 / 1000000 \<le> grid k" by (intro grid_bounds)
  ultimately show ?thesis by linarith
qed

lemma grid_mono: "k < 20 \<Longrightarrow> grid k < grid (Suc k)"
proof -
  assume k: "k < 20"
  then have "grid k \<le> of_nat k / 20 + 1 / 1000000"
    "of_nat (Suc k) / 20 - 1 / 1000000 \<le> grid (Suc k)"
    by (simp_all only: grid_bounds Suc_leI less_imp_le)
  then have "grid k \<le> of_nat k / 20 + 1 / 1000000"
    "(of_nat k / 20 + 1 / 20) - 1 / 1000000 \<le> grid (Suc k)"
    by (simp_all only: of_nat_Suc add.commute [of 1] add_divide_distrib)
  then show ?thesis by linarith
qed

lemma toFixed2_near_hundredth:
  assumes "0 \<le> s" "of_nat j / 20 - 1 / 1000 \<le> s" "s \<le> of_nat j / 20 + 1 / 1000"
  shows "toFixed2 s = of_nat j / 20"
proof -
  have "s * 100 - of_int (5 * int j) = 100 * (s - of_nat j / 20)" by simp
  with assms(2,3) have "\<bar>s * 100 - of_int (5 * int j)\<bar> < 1 / 2" by linarith
  then have "round (s * 100) = 5 * int j" by (rule round_unique')
  with assms(1) show ?thesis by (simp add: toFixed2_def)
qed

lemma tick_up:
  assumes "k < 20"
  shows "to_double (toFixed2 (js_add (grid k) c005)) = grid (Suc k)"
proof -
  have g: "of_nat k / 20 - 1 / 1000000 \<le> grid k" "grid k \<le> of_nat k / 20 + 1 / 1000000"
    using assms by (simp_all only: grid_bounds less_imp_le)
  note c = c005_bounds
  have k19: "(of_nat k :: rat) \<le> 19" "(0::rat) \<le> of_nat k" using assms by simp_all
  from g c k19 have r: "0 \<le> grid k + c005" "grid k + c005 \<le> 2" by linarith+
  note d = to_double_bounds [OF r]
  have "0 \<le> js_add (grid k) c005"
    unfolding js_add_def using r(1) by (rule to_double_nonneg)
  moreover from g c d have "(of_nat k / 20 + 1 / 20) - 1 / 1000 \<le> to_double (grid k + c005)"
    "to_double (grid k + c005) \<le> (of_nat k / 20 + 1 / 20) + 1 / 1000"
    by linarith+
  then have "of_nat (Suc k) / 20 - 1 / 1000 \<le> js_add (grid k) c005"
    "js_add (grid k) c005 \<le> of_nat (Suc k) / 20 + 1 / 1000"
    by (simp_all only: js_add_def of_nat_Suc add.commute [of 1] add_divide_distrib)
  ultimately have "toFixed2 (js_add (grid k) c005) = of_nat (Suc k) / 20"
    by (rule toFixed2_near_hundredth)
  then show ?thesis by (simp only: grid_def)
qed

lemma tick_down:
  assumes "k < 20"
  shows "to_double (toFixed2 (js_sub (grid (Suc k)) c005)) = grid k"
proof (cases k)
  case 0
  have "js_sub (grid (Suc 0)) c005 = 0" by (simp add: js_sub_def c005_grid)
  moreover have "toFixed2 0 = 0" by (simp add: toFixed2_def)
  ultimately show ?thesis using 0 by simp
next
  case (Suc i)
  have "of_nat (Suc k) / 20 - 1 / 1000000 \<le> grid (Suc k)"
    "grid (Suc k) \<le> of_nat (Suc k) / 20 + 1 / 1000000"
    using assms by (simp_all only: grid_bounds Suc_leI)
  then have g: "(of_nat k / 20 + 1 / 20) - 1 / 1000000 \<le> grid (Suc k)"
    "grid (Suc k) \<le> (of_nat k / 20 + 1 / 20) + 1 / 1000000"
    by (simp_all only: of_nat_Suc add.commute [of 1] add_divide_distrib)
  note c = c005_bounds
  have k1: "(1::rat) \<le> of_nat k" "(of_nat k :: rat) \<le> 19" using Suc assms by simp_all
  from g c k1 have r: "0 \<le> grid (Suc k) - c005" "grid (Suc k) - c005 \<le> 2" by linarith+
  note d = to_double_bounds [OF r]
  have "0 \<le> js_sub (grid (Suc k)) c005"
    unfolding js_sub_def using r(1) by (rule to_double_nonneg)
  moreover from g c d have "of_nat k / 20 - 1 / 1000 \<le> js_sub (grid (Suc k)) c005"
    "js_sub (grid (Suc k)) c005 \<le> of_nat k / 20 + 1 / 1000"
    unfolding js_sub_def by linarith+
  ultimately have "toFixed2 (js_sub (grid (Suc k)) c005) = of_nat k / 20"
    by (rule toFixed2_near_hundredth)
  then show ?thesis by (simp only: grid_def)
qed

lemma c005_value: "c005 = 3602879701896397 / 2 ^ 56"
proof -
  have "to_double (5 / 100) = of_int 7205759403792794 / 2 ^ 57"
    by (rule to_double_eqI) simp_all
  then show ?thesis by (simp add: c005_def)
qed

lemma grid_3_value: "grid 3 = 5404319552844595 / 2 ^ 55"
proof -
  have "to_double (3 / 20) = of_int 5404319552844595 / 2 ^ 55"
    by (rule to_double_eqI) simp_all
  then show ?thesis by (simp add: grid_def)
qed

lemma delay_at_015: "js_mul (js_div (grid 3) c005) 100 = 5277655813324799 / 2 ^ 44"
proof -
  have q: "js_div (grid 3) c005 = of_int 6755399441055743 / 2 ^ 51"
    unfolding js_div_def grid_3_value c005_value
    by (rule to_double_eqI) simp_all
  have "to_double (of_int 6755399441055743 / 2 ^ 51 * 100) = of_int 5277655813324799 / 2 ^ 44"
    by (rule to_double_eqI) simp_all
  then show ?thesis unfolding js_mul_def q by simp
qed


lemma tick_up_0: "to_double (toFixed2 (js_add 0 c005)) = grid (Suc 0)"
  using tick_up [of 0] by simp

lemmas tick_simps = tick_up tick_up_0 tick_down grid_less_one grid_le_one grid_nonneg grid_pos

lemma fade_in_tick_grid:
  assumes "volume (audios s a) = grid k" "k \<le> 20"
  shows "volume (audios (run_callback (FadeInTick a seen) s) a) = grid (min 20 (Suc k))"
proof (cases "k < 20")
  case True
  then have lt: "grid k < 1" by (rule grid_less_one)
  have "run_callback (FadeInTick a seen) s = set_volume a (grid (Suc k)) s"
    by (simp only: run_callback.simps assms(1) lt if_True tick_up [OF True])
  moreover from True have "min 20 (Suc k) = Suc k" "grid (Suc k) \<le> 1"
    by (simp_all add: grid_le_one)
  ultimately show ?thesis
    by (simp add: set_volume_def grid_nonneg)
next
  case False
  with assms have "k = 20" by simp
  with assms show ?thesis by (simp add: clearInterval_def split: option.splits)
qed


lemma fade_in_ticks_grid:
  "volume (audios s a) = grid k \<Longrightarrow> k \<le> 20 \<Longrightarrow>
   volume (audios ((run_callback (FadeInTick a seen) ^^ n) s) a) = grid (min 20 (k + n))"
proof (induction n arbitrary: s k)
  case 0
  then show ?case by simp
next
  case (Suc n)
  have "volume (audios (run_callback (FadeInTick a seen) s) a) = grid (min 20 (Suc k))"
    using Suc.prems by (rule fade_in_tick_grid)
  from Suc.IH [OF this] show ?case
    by (simp add: funpow_Suc_right min_def del: funpow.simps run_callback.simps)
qed


lemma grid_mono_le: "i \<le> j \<Longrightarrow> j \<le> 20 \<Longrightarrow> grid i \<le> grid j"
proof (induction j)
  case 0
  then show ?case by simp
next
  case (Suc j)
  show ?case
  proof (cases "i = Suc j")
    case True
    then show ?thesis by simp
  next
    case False
    with Suc.prems have "i \<le> j" "j < 20" by simp_all
    with Suc.IH grid_mono [of j] show ?thesis by simp
  qed
qed

lemma grid_strict: "i < j \<Longrightarrow> j \<le> 20 \<Longrightarrow> grid i < grid j"
proof -
  assume "i < j" "j \<le> 20"
  then have "grid i < grid (Suc i)" "grid (Suc i) \<le> grid j"
    by (simp_all add: grid_mono grid_mono_le)
  then show ?thesis by simp
qed







lemma fires_are_ticks:
  assumes "timers s h = Some \<lparr>callback = FadeInTick a seen, delay = d, repeats = True\<rparr>"
      and "seen \<noteq> Some h"
  shows "run (replicate n (Fire h)) s = (run_callback (FadeInTick a seen) ^^ n) s \<and>
         timers (run (replicate n (Fire h)) s) h = timers s h"
  using assms(1)
proof (induction n arbitrary: s)
  case 0
  then show ?case by simp
next
  case (Suc n)
  have f: "fire h s = run_callback (FadeInTick a seen) s"
    using Suc.prems by (simp add: fire_def)
  have t: "timers (run_callback (FadeInTick a seen) s) h = timers s h"
    using assms(2) by (auto simp: set_volume_def clearInterval_def split: option.splits)
  with Suc.prems have "timers (run_callback (FadeInTick a seen) s) h
      = Some \<lparr>callback = FadeInTick a seen, delay = d, repeats = True\<rparr>" by simp
  from Suc.IH [OF this]
  have A: "run (replicate n (Fire h)) (run_callback (FadeInTick a seen) s)
             = (run_callback (FadeInTick a seen) ^^ n) (run_callback (FadeInTick a seen) s)"
   and B: "timers (run (replicate n (Fire h)) (run_callback (FadeInTick a seen) s)) h
             = timers (run_callback (FadeInTick a seen) s) h"
    by blast+
  have E: "run (replicate (Suc n) (Fire h)) s
             = run (replicate n (Fire h)) (run_callback (FadeInTick a seen) s)"
    using f by simp
  show ?case
  proof (intro conjI)
    show "run (replicate (Suc n) (Fire h)) s = (run_callback (FadeInTick a seen) ^^ Suc n) s"
      by (simp only: E A funpow_Suc_right o_apply)
    show "timers (run (replicate (Suc n) (Fire h)) s) h = timers s h"
      by (simp only: E B t)
  qed
qed

section \<open>The promise callbacks\<close>

lemma settle_resolved:
  assumes "promises s p = Some cl"
  shows "settle p Resolved s =
    s\<lparr>promises := (promises s)(p := None),
      comps := (comps s)(owner cl := (comps s (owner cl))\<lparr>interactable := True\<rparr>),
      interactableNotified := interactableNotified s \<and> \<not> notified_seen cl,
      toasts := toasts s @ (if notified_seen cl then [ToastSuccess msg_good_to_go] else [])\<rparr>"
  using assms
  by (intro state.equality) (simp_all add: settle_def then_cb_def setter_defs Let_def)

lemma settle_not_interacted:
  assumes "promises s p = Some cl" "includes_str message msg_not_interacted"
  shows "settle p (Rejected message) s =
    s\<lparr>promises := (promises s)(p := None),
      interactableNotified := interactableNotified s \<or> \<not> notified_seen cl,
      toasts := toasts s @ (if notified_seen cl then [] else [Toast msg_click_anywhere])\<rparr>"
  using assms
  by (intro state.equality) (simp_all add: settle_def catch_cb_def setter_defs Let_def)

lemma settle_frame:
  "audios (settle p out s) = audios s"
  "timers (settle p out s) = timers s"
  "next_audio (settle p out s) = next_audio s"
  "next_timer (settle p out s) = next_timer s"
  "activeTrack (settle p out s) = activeTrack s"
  "audio (comps (settle p out s) t) = audio (comps s t)"
  "fadeIn (comps (settle p out s) t) = fadeIn (comps s t)"
  "fadeOut (comps (settle p out s) t) = fadeOut (comps s t)"
  by (simp_all add: settle_def then_cb_def catch_cb_def setter_defs Let_def
        split: option.splits outcome.splits)

lemma stop_settle_commute:
  "settle p Resolved (stop t s) = stop t (settle p Resolved s)"
proof (cases "promises s p")
  case None
  then have "promises (stop t s) p = None"
    by (cases "audio (comps s t)") (simp_all add: stop_skip stop_active)
  with None show ?thesis by (simp add: settle_def)
next
  case (Some cl)
  note cl = this
  show ?thesis
  proof (cases "audio (comps s t)")
    case None
    then have "audio (comps (settle p Resolved s) t) = None"
      by (simp add: settle_frame)
    with None show ?thesis by (simp add: stop_skip)
  next
    case (Some a)
    from cl have p': "promises (stop t s) p = Some cl" using Some by (simp add: stop_active)
    from Some have a': "audio (comps (settle p Resolved s) t) = Some a"
      by (simp add: settle_frame)
    show ?thesis
      unfolding settle_resolved [OF p'] stop_active [OF a']
      unfolding settle_resolved [OF cl] stop_active [OF Some]
      by (intro state.equality ext component.equality) (simp_all split: option.splits)
  qed
qed

lemma run_append: "run (xs @ ys) s = run ys (run xs s)"
  by (induction xs arbitrary: s) simp_all

lemma run_callback_quiet:
  "toasts (run_callback cb s) = toasts s"
  "interactableNotified (run_callback cb s) = interactableNotified s"
  "next_audio (run_callback cb s) = next_audio s"
  "promises (run_callback cb s) = promises s"
  by (cases cb; simp add: host_defs split: option.splits)+

lemma quiet_step:
  assumes "\<not> is_settle e"
  shows "toasts (step e s) = toasts s \<and>
         interactableNotified (step e s) = interactableNotified s \<and>
         next_audio s \<le> next_audio (step e s) \<and>
         (\<forall>p<next_audio s. promises (step e s) p = promises s p)"
proof (cases e)
  case (Play tr)
  show ?thesis
  proof (cases "audio (comps s (track_id tr)) = None \<and> (\<exists>url. preview_url tr = Some url \<and> url \<noteq> [])")
    case True
    with Play show ?thesis by (auto simp: play_fresh)
  next
    case False
    then have "play tr s = s" by (intro play_skip) (cases "preview_url tr", auto)
    with Play show ?thesis by simp
  qed
next
  case (Stop t)
  then show ?thesis
    by (cases "audio (comps s t)") (simp_all add: stop_skip stop_active)
next
  case (Fire h)
  then show ?thesis
    by (simp add: fire_def run_callback_quiet clearInterval_def split: option.splits)
next
  case (Settle p out)
  with assms show ?thesis by simp
qed

lemma quiet_run:
  assumes "list_all (\<lambda>e. \<not> is_settle e) es" "p < next_audio s"
  shows "toasts (run es s) = toasts s \<and>
         interactableNotified (run es s) = interactableNotified s \<and>
         promises (run es s) p = promises s p"
  using assms
proof (induction es arbitrary: s)
  case Nil
  then show ?case by simp
next
  case (Cons e es)
  from Cons.prems have q: "\<not> is_settle e" and r: "list_all (\<lambda>e. \<not> is_settle e) es" by simp_all
  from quiet_step [OF q, of s] Cons.prems(2)
  have st: "toasts (step e s) = toasts s" "interactableNotified (step e s) = interactableNotified s"
           "p < next_audio (step e s)" "promises (step e s) p = promises s p"
    by auto
  from Cons.IH [OF r st(3)] st show ?case by simp
qed

lemma quiet_run_next:
  assumes "list_all (\<lambda>e. \<not> is_settle e) es"
  shows "next_audio s \<le> next_audio (run es s)"
  using assms
proof (induction es arbitrary: s)
  case Nil
  then show ?case by simp
next
  case (Cons e es)
  from Cons.prems have q: "\<not> is_settle e" and r: "list_all (\<lambda>e. \<not> is_settle e) es" by simp_all
  from quiet_step [OF q, of s] have "next_audio s \<le> next_audio (step e s)" by simp
  also from Cons.IH [OF r] have "\<dots> \<le> next_audio (run es (step e s))" .
  finally show ?case by simp
qed

section \<open>The invariant of the sessions\<close>

lemma sessions_ok_init: "sessions_ok init"
  by (simp add: sessions_ok_def init_def init_component_def)

lemma sessions_ok_play:
  assumes "sessions_ok s"
  shows "sessions_ok (play tr s)"
proof (cases "audio (comps s (track_id tr)) = None \<and> (\<exists>url. preview_url tr = Some url \<and> url \<noteq> [])")
  case True
  then obtain url where u: "preview_url tr = Some url" "url \<noteq> []"
    and n: "audio (comps s (track_id tr)) = None" by blast
  from assms have fresh: "\<And>t a. audio (comps s t) = Some a \<Longrightarrow> a < next_audio s"
    and uniq: "\<And>t a t'. audio (comps s t) = Some a \<Longrightarrow> audio (comps s t') = Some a \<Longrightarrow> t = t'"
    and own: "\<And>h a. fade_in_of (timers s h) = Some a \<Longrightarrow>
                \<exists>t. audio (comps s t) = Some a \<and> fadeIn (comps s t) = Some h"
    unfolding sessions_ok_def by blast+
  have c: "comps (play tr s) = (comps s)(track_id tr := (comps s (track_id tr))
            \<lparr>fadeIn := Some (next_timer s), audio := Some (next_audio s)\<rparr>)"
    and na: "next_audio (play tr s) = Suc (next_audio s)"
    and tm: "timers (play tr s) = (timers s)(next_timer s :=
         Some \<lparr>callback = FadeInTick (next_audio s) (fadeIn (comps s (track_id tr))),
               delay = 100, repeats = True\<rparr>)"
    and at: "activeTrack (play tr s) = track_id tr"
    by (simp_all add: play_fresh [OF u n])
  have 1: "a < next_audio (play tr s)" if "audio (comps (play tr s) t) = Some a" for t a
    using that fresh [of t a] by (auto simp: c na split: if_splits)
  have 2: "\<exists>t. audio (comps (play tr s) t) = Some a \<and> fadeIn (comps (play tr s) t) = Some h"
    if "fade_in_of (timers (play tr s) h) = Some a" for h a
  proof (cases "h = next_timer s")
    case True
    with that have "a = next_audio s" by (simp add: tm)
    with True show ?thesis by (intro exI [of _ "track_id tr"]) (simp add: c)
  next
    case False
    with that have "fade_in_of (timers s h) = Some a" by (simp add: tm)
    from own [OF this] obtain t where t: "audio (comps s t) = Some a" "fadeIn (comps s t) = Some h"
      by blast
    with n have "t \<noteq> track_id tr" by auto
    with t show ?thesis by (intro exI [of _ t]) (simp add: c)
  qed
  have 3: "audio (comps (play tr s) (activeTrack (play tr s))) \<noteq> None"
    by (simp add: c at)
  have 4: "t = t'" if "audio (comps (play tr s) t) = Some a" "audio (comps (play tr s) t') = Some a"
    for t t' a
    using that uniq [of t a t'] fresh [of t a] fresh [of t' a]
    by (auto simp: c split: if_splits)
  from 1 2 3 4 show ?thesis unfolding sessions_ok_def by blast
next
  case False
  then have "play tr s = s" by (intro play_skip) (cases "preview_url tr", auto)
  with assms show ?thesis by simp
qed

lemma sessions_ok_stop:
  assumes "sessions_ok s"
  shows "sessions_ok (stop t s)"
proof (cases "audio (comps s t)")
  case None
  with assms show ?thesis by (simp add: stop_skip)
next
  case (Some a0)
  from assms have fresh: "\<And>t a. audio (comps s t) = Some a \<Longrightarrow> a < next_audio s"
    and uniq: "\<And>t a t'. audio (comps s t) = Some a \<Longrightarrow> audio (comps s t') = Some a \<Longrightarrow> t = t'"
    and own: "\<And>h a. fade_in_of (timers s h) = Some a \<Longrightarrow>
                \<exists>t. audio (comps s t) = Some a \<and> fadeIn (comps s t) = Some h"
    unfolding sessions_ok_def by blast+
  have c: "comps (stop t s) = (comps s)(t := (comps s t)\<lparr>audio := None, fadeOut := Some (next_timer s)\<rparr>)"
    and na: "next_audio (stop t s) = next_audio s"
    and at: "activeTrack (stop t s) = []"
    by (simp_all add: stop_active [OF Some])
  have tm: "fade_in_of (timers (stop t s) h) = Some a \<Longrightarrow>
              fade_in_of (timers s h) = Some a \<and> fadeIn (comps s t) \<noteq> Some h" for h a
    by (auto simp: stop_active [OF Some] split: if_splits option.splits)
  have 1: "a < next_audio (stop t s)" if "audio (comps (stop t s) t') = Some a" for t' a
    using that fresh [of t' a] by (auto simp: c na split: if_splits)
  have 2: "\<exists>t'. audio (comps (stop t s) t') = Some a \<and> fadeIn (comps (stop t s) t') = Some h"
    if "fade_in_of (timers (stop t s) h) = Some a" for h a
  proof -
    from tm [OF that] have o: "fade_in_of (timers s h) = Some a" and ne: "fadeIn (comps s t) \<noteq> Some h"
      by blast+
    from own [OF o] obtain t' where t': "audio (comps s t') = Some a" "fadeIn (comps s t') = Some h"
      by blast
    with ne have "t' \<noteq> t" by auto
    with t' show ?thesis by (intro exI [of _ t']) (simp add: c)
  qed
  have 4: "t1 = t2" if "audio (comps (stop t s) t1) = Some a" "audio (comps (stop t s) t2) = Some a"
    for t1 t2 a
    using that uniq [of t1 a t2] by (auto simp: c split: if_splits)
  from 1 2 4 at show ?thesis unfolding sessions_ok_def by blast
qed

lemma run_callback_sessions:
  "comps (run_callback cb s) = comps s"
  "next_audio (run_callback cb s) = next_audio s"
  "activeTrack (run_callback cb s) = activeTrack s"
  "fade_in_of (timers (run_callback cb s) h) = Some a \<Longrightarrow> fade_in_of (timers s h) = Some a"
  by (cases cb; auto simp: host_defs split: option.splits if_splits)+

lemma sessions_ok_fire:
  assumes "sessions_ok s"
  shows "sessions_ok (fire h s)"
proof (cases "timers s h")
  case None
  with assms show ?thesis by (simp add: fire_def)
next
  case (Some tm)
  let ?s = "if repeats tm then s else clearInterval h s"
  have f: "fire h s = run_callback (callback tm) ?s" using Some by (simp add: fire_def)
  have k: "comps ?s = comps s" "next_audio ?s = next_audio s" "activeTrack ?s = activeTrack s"
    by (simp_all add: clearInterval_def)
  have t: "fade_in_of (timers ?s h') = Some a \<Longrightarrow> fade_in_of (timers s h') = Some a" for h' a
    by (auto simp: clearInterval_def split: if_splits)
  have T: "fade_in_of (timers (fire h s) h') = Some a \<Longrightarrow> fade_in_of (timers s h') = Some a" for h' a
    unfolding f by (rule t, rule run_callback_sessions(4))
  have E: "comps (fire h s) = comps s" "next_audio (fire h s) = next_audio s"
    "activeTrack (fire h s) = activeTrack s"
    unfolding f by (simp_all only: run_callback_sessions k)
  from assms have own: "\<forall>h a. fade_in_of (timers s h) = Some a \<longrightarrow>
         (\<exists>t. audio (comps s t) = Some a \<and> fadeIn (comps s t) = Some h)"
    by (simp add: sessions_ok_def)
  have "\<forall>h' a. fade_in_of (timers (fire h s) h') = Some a \<longrightarrow>
         (\<exists>t. audio (comps s t) = Some a \<and> fadeIn (comps s t) = Some h')"
  proof (intro allI impI)
    fix h' a assume "fade_in_of (timers (fire h s) h') = Some a"
    then have "fade_in_of (timers s h') = Some a" by (rule T)
    with own show "\<exists>t. audio (comps s t) = Some a \<and> fadeIn (comps s t) = Some h'" by blast
  qed
  with assms show ?thesis by (simp add: sessions_ok_def E)
qed

lemma sessions_ok_settle:
  assumes "sessions_ok s"
  shows "sessions_ok (settle p out s)"
  using assms unfolding sessions_ok_def by (simp only: settle_frame)

lemma sessions_ok_step: "sessions_ok s \<Longrightarrow> sessions_ok (step e s)"
  by (cases e) (simp_all add: sessions_ok_play sessions_ok_stop sessions_ok_fire sessions_ok_settle)

lemma sessions_ok_run: "sessions_ok s \<Longrightarrow> sessions_ok (run es s)"
  by (induction es arbitrary: s) (simp_all add: sessions_ok_step)

text \<open>The handle in \<open>fadeIn\<close> has always been allocated.\<close>

lemma fire_frame:
  "comps (fire h s) = comps s" "next_timer (fire h s) = next_timer s"
proof -
  have "comps (run_callback cb s') = comps s' \<and> next_timer (run_callback cb s') = next_timer s'"
    for cb s'
    by (cases cb) (simp_all add: host_defs split: option.splits)
  then show "comps (fire h s) = comps s" "next_timer (fire h s) = next_timer s"
    by (simp_all add: fire_def clearInterval_def split: option.splits)
qed

lemma fadeIn_below_step:
  assumes "\<forall>t h. fadeIn (comps s t) = Some h \<longrightarrow> h < next_timer s"
  shows "\<forall>t h. fadeIn (comps (step e s) t) = Some h \<longrightarrow> h < next_timer (step e s)"
proof (cases e)
  case (Play tr)
  show ?thesis
  proof (cases "audio (comps s (track_id tr)) = None \<and> (\<exists>url. preview_url tr = Some url \<and> url \<noteq> [])")
    case True
    then obtain url where "preview_url tr = Some url" "url \<noteq> []"
      "audio (comps s (track_id tr)) = None" by blast
    then have "comps (play tr s) = (comps s)(track_id tr := (comps s (track_id tr))
            \<lparr>fadeIn := Some (next_timer s), audio := Some (next_audio s)\<rparr>)"
      "next_timer (play tr s) = Suc (next_timer s)"
      by (simp_all add: play_fresh)
    with assms Play show ?thesis by (auto simp: less_Suc_eq)
  next
    case False
    then have "play tr s = s" by (intro play_skip) (cases "preview_url tr", auto)
    with assms Play show ?thesis by simp
  qed
next
  case (Stop t)
  show ?thesis
  proof (cases "audio (comps s t)")
    case None
    with assms Stop show ?thesis by (simp add: stop_skip)
  next
    case (Some a)
    have "comps (stop t s) = (comps s)(t := (comps s t)\<lparr>audio := None, fadeOut := Some (next_timer s)\<rparr>)"
      "next_timer (stop t s) = Suc (Suc (next_timer s))"
      by (simp_all add: stop_active [OF Some])
    with assms Stop show ?thesis by (auto simp: less_Suc_eq)
  qed
next
  case (Fire h)
  with assms show ?thesis by (simp add: fire_frame)
next
  case (Settle p out)
  with assms show ?thesis by (simp add: settle_frame)
qed

lemma fadeIn_below_run:
  "\<forall>t h. fadeIn (comps s t) = Some h \<longrightarrow> h < next_timer s \<Longrightarrow>
   \<forall>t h. fadeIn (comps (run es s) t) = Some h \<longrightarrow> h < next_timer (run es s)"
proof (induction es arbitrary: s)
  case Nil
  then show ?case by simp
next
  case (Cons e es)
  from Cons.prems have "\<forall>t h. fadeIn (comps (step e s) t) = Some h \<longrightarrow> h < next_timer (step e s)"
    by (rule fadeIn_below_step)
  from Cons.IH [OF this] show ?case by simp
qed

lemma fadeIn_below_init: "\<forall>t h. fadeIn (comps init t) = Some h \<longrightarrow> h < next_timer init"
  by (simp add: init_def init_component_def)

section \<open>The pending pause\<close>

lemma handles_okD:
  assumes "handles_ok s"
  shows "fadeIn (comps s t) = Some h \<Longrightarrow> h < next_timer s \<and> not_timeout (timers s h)"
    and "fadeOut (comps s t) = Some h \<Longrightarrow> h < next_timer s \<and> not_timeout (timers s h)"
    and "timers s h0 = Some tm \<Longrightarrow> seen_of (callback tm) = Some h \<Longrightarrow>
           h < next_timer s \<and> not_timeout (timers s h)"
  using assms unfolding handles_ok_def by blast+

lemma handles_okI:
  assumes "\<And>t h. fadeIn (comps s t) = Some h \<Longrightarrow> h < next_timer s \<and> not_timeout (timers s h)"
      and "\<And>t h. fadeOut (comps s t) = Some h \<Longrightarrow> h < next_timer s \<and> not_timeout (timers s h)"
      and "\<And>h0 tm h. timers s h0 = Some tm \<Longrightarrow> seen_of (callback tm) = Some h \<Longrightarrow>
           h < next_timer s \<and> not_timeout (timers s h)"
  shows "handles_ok s"
  unfolding handles_ok_def using assms by blast

lemma handles_ok_init: "handles_ok init"
  by (simp add: handles_ok_def init_def init_component_def)

lemma handles_ok_play:
  assumes "handles_ok s"
  shows "handles_ok (play tr s)"
proof (cases "audio (comps s (track_id tr)) = None \<and> (\<exists>url. preview_url tr = Some url \<and> url \<noteq> [])")
  case True
  then obtain url where u: "preview_url tr = Some url" "url \<noteq> []"
    and n: "audio (comps s (track_id tr)) = None" by blast
  note D = handles_okD [OF assms]
  have c: "comps (play tr s) = (comps s)(track_id tr := (comps s (track_id tr))
            \<lparr>fadeIn := Some (next_timer s), audio := Some (next_audio s)\<rparr>)"
    and nt: "next_timer (play tr s) = Suc (next_timer s)"
    and tm: "timers (play tr s) = (timers s)(next_timer s :=
         Some \<lparr>callback = FadeInTick (next_audio s) (fadeIn (comps s (track_id tr))),
               delay = 100, repeats = True\<rparr>)"
    by (simp_all add: play_fresh [OF u n])
  have keep: "h < next_timer (play tr s) \<and> not_timeout (timers (play tr s) h)"
    if "h < next_timer s \<and> not_timeout (timers s h)" for h
    using that by (simp add: nt tm)
  show ?thesis
  proof (rule handles_okI)
    fix t h assume "fadeIn (comps (play tr s) t) = Some h"
    then consider "h = next_timer s" | "fadeIn (comps s t) = Some h"
      by (auto simp: c split: if_splits)
    then show "h < next_timer (play tr s) \<and> not_timeout (timers (play tr s) h)"
    proof cases
      case 1
      then show ?thesis by (simp add: nt tm)
    next
      case 2
      from D(1) [OF this] show ?thesis by (rule keep)
    qed
  next
    fix t h assume "fadeOut (comps (play tr s) t) = Some h"
    then have "fadeOut (comps s t) = Some h" by (auto simp: c split: if_splits)
    from D(2) [OF this] show "h < next_timer (play tr s) \<and> not_timeout (timers (play tr s) h)"
      by (rule keep)
  next
    fix h0 tm' h
    assume a: "timers (play tr s) h0 = Some tm'" "seen_of (callback tm') = Some h"
    then consider "fadeIn (comps s (track_id tr)) = Some h" | "timers s h0 = Some tm'"
      by (auto simp: tm split: if_splits)
    then show "h < next_timer (play tr s) \<and> not_timeout (timers (play tr s) h)"
    proof cases
      case 1
      from D(1) [OF this] show ?thesis by (rule keep)
    next
      case 2
      from D(3) [OF this a(2)] show ?thesis by (rule keep)
    qed
  qed
next
  case False
  then have "play tr s = s" by (intro play_skip) (cases "preview_url tr", auto)
  with assms show ?thesis by simp
qed

lemma handles_ok_stop:
  assumes "handles_ok s"
  shows "handles_ok (stop t s)"
proof (cases "audio (comps s t)")
  case None
  with assms show ?thesis by (simp add: stop_skip)
next
  case (Some a)
  note D = handles_okD [OF assms]
  have c: "comps (stop t s) = (comps s)(t := (comps s t)\<lparr>audio := None, fadeOut := Some (next_timer s)\<rparr>)"
    and nt: "next_timer (stop t s) = Suc (Suc (next_timer s))"
    by (simp_all add: stop_active [OF Some])
  have tm: "timers (stop t s) =
      ((case fadeIn (comps s t) of None \<Rightarrow> timers s | Some h \<Rightarrow> (timers s)(h := None)))
         (next_timer s :=
            Some \<lparr>callback = FadeOutTick a (fadeOut (comps s t)), delay = 100, repeats = True\<rparr>,
          Suc (next_timer s) :=
            Some \<lparr>callback = PauseOnce a,
                  delay = js_mul (js_div (volume (audios s a)) c005) 100, repeats = False\<rparr>)"
    by (simp add: stop_active [OF Some])
  have keep: "h < next_timer (stop t s) \<and> not_timeout (timers (stop t s) h)"
    if "h < next_timer s \<and> not_timeout (timers s h)" for h
    using that by (simp add: nt tm split: option.splits)
  have old: "timers s h0 = Some tm' \<or> (h0 = next_timer s \<and> callback tm' = FadeOutTick a (fadeOut (comps s t)))
      \<or> (h0 = Suc (next_timer s) \<and> callback tm' = PauseOnce a)"
    if "timers (stop t s) h0 = Some tm'" for h0 tm'
    using that by (auto simp: tm split: if_splits option.splits)
  show ?thesis
  proof (rule handles_okI)
    fix t' h assume "fadeIn (comps (stop t s) t') = Some h"
    then have "fadeIn (comps s t') = Some h" by (auto simp: c split: if_splits)
    from D(1) [OF this] show "h < next_timer (stop t s) \<and> not_timeout (timers (stop t s) h)"
      by (rule keep)
  next
    fix t' h assume "fadeOut (comps (stop t s) t') = Some h"
    then consider "h = next_timer s" | "fadeOut (comps s t') = Some h"
      by (auto simp: c split: if_splits)
    then show "h < next_timer (stop t s) \<and> not_timeout (timers (stop t s) h)"
    proof cases
      case 1
      then show ?thesis by (simp add: nt tm)
    next
      case 2
      from D(2) [OF this] show ?thesis by (rule keep)
    qed
  next
    fix h0 tm' h
    assume a: "timers (stop t s) h0 = Some tm'" "seen_of (callback tm') = Some h"
    from old [OF a(1)] a(2) consider "timers s h0 = Some tm'" | "fadeOut (comps s t) = Some h"
      by auto
    then show "h < next_timer (stop t s) \<and> not_timeout (timers (stop t s) h)"
    proof cases
      case 1
      from D(3) [OF this a(2)] show ?thesis by (rule keep)
    next
      case 2
      from D(2) [OF this] show ?thesis by (rule keep)
    qed
  qed
qed

lemma run_callback_timers:
  "timers (run_callback cb s) h = timers s h \<or>
   (timers (run_callback cb s) h = None \<and> seen_of cb = Some h)"
  by (cases cb) (auto simp: host_defs split: option.splits)

lemma run_callback_frame:
  "comps (run_callback cb s) = comps s" "next_timer (run_callback cb s) = next_timer s"
  by (cases cb; simp add: host_defs split: option.splits)+

lemma fire_timers:
  "timers (fire h0 s) h = timers s h \<or>
   (timers (fire h0 s) h = None \<and>
    ((h = h0 \<and> \<not> not_timeout (timers s h0)) \<or>
     (\<exists>tm. timers s h0 = Some tm \<and> seen_of (callback tm) = Some h)))"
proof (cases "timers s h0")
  case None
  then show ?thesis by (simp add: fire_def)
next
  case (Some tm)
  let ?s = "if repeats tm then s else clearInterval h0 s"
  have f: "fire h0 s = run_callback (callback tm) ?s" using Some by (simp add: fire_def)
  from run_callback_timers [of "callback tm" ?s h]
  show ?thesis unfolding f using Some
    by (auto simp: clearInterval_def split: if_splits)
qed

lemma handles_ok_fire:
  assumes "handles_ok s"
  shows "handles_ok (fire h0 s)"
proof -
  note D = handles_okD [OF assms]
  have E: "comps (fire h0 s) = comps s" "next_timer (fire h0 s) = next_timer s"
    by (rule fire_frame)+
  have keep: "h < next_timer (fire h0 s) \<and> not_timeout (timers (fire h0 s) h)"
    if "h < next_timer s \<and> not_timeout (timers s h)" for h
    using that fire_timers [of h0 s h] by (auto simp: E)
  show ?thesis
  proof (rule handles_okI)
    fix t h assume "fadeIn (comps (fire h0 s) t) = Some h"
    then have "fadeIn (comps s t) = Some h" by (simp add: E)
    from D(1) [OF this] show "h < next_timer (fire h0 s) \<and> not_timeout (timers (fire h0 s) h)"
      by (rule keep)
  next
    fix t h assume "fadeOut (comps (fire h0 s) t) = Some h"
    then have "fadeOut (comps s t) = Some h" by (simp add: E)
    from D(2) [OF this] show "h < next_timer (fire h0 s) \<and> not_timeout (timers (fire h0 s) h)"
      by (rule keep)
  next
    fix h1 tm h
    assume a: "timers (fire h0 s) h1 = Some tm" "seen_of (callback tm) = Some h"
    from fire_timers [of h0 s h1] a(1) have "timers s h1 = Some tm" by auto
    from D(3) [OF this a(2)] show "h < next_timer (fire h0 s) \<and> not_timeout (timers (fire h0 s) h)"
      by (rule keep)
  qed
qed

lemma handles_ok_settle:
  assumes "handles_ok s"
  shows "handles_ok (settle p out s)"
  using assms unfolding handles_ok_def by (simp only: settle_frame)

lemma handles_ok_step: "handles_ok s \<Longrightarrow> handles_ok (step e s)"
  by (cases e) (simp_all add: handles_ok_play handles_ok_stop handles_ok_fire handles_ok_settle)

lemma handles_ok_run: "handles_ok s \<Longrightarrow> handles_ok (run es s)"
  by (induction es arbitrary: s) (simp_all add: handles_ok_step)

lemma timeout_stays_step:
  assumes "handles_ok s" "timers s h = Some tm" "\<not> repeats tm" "h < next_timer s" "e \<noteq> Fire h"
  shows "timers (step e s) h = Some tm \<and> h < next_timer (step e s)"
proof (cases e)
  case (Play tr)
  show ?thesis
  proof (cases "audio (comps s (track_id tr)) = None \<and> (\<exists>url. preview_url tr = Some url \<and> url \<noteq> [])")
    case True
    then obtain url where "preview_url tr = Some url" "url \<noteq> []"
      "audio (comps s (track_id tr)) = None" by blast
    with assms Play show ?thesis by (simp add: play_fresh)
  next
    case False
    then have "play tr s = s" by (intro play_skip) (cases "preview_url tr", auto)
    with assms Play show ?thesis by simp
  qed
next
  case (Stop t)
  show ?thesis
  proof (cases "audio (comps s t)")
    case None
    with assms Stop show ?thesis by (simp add: stop_skip)
  next
    case (Some a)
    have "h1 \<noteq> h" if "fadeIn (comps s t) = Some h1" for h1
      using handles_okD(1) [OF assms(1) that] assms(2,3) by auto
    with assms Stop show ?thesis
      by (auto simp: stop_active [OF Some] split: option.splits)
  qed
next
  case (Fire h0)
  with assms have ne: "h0 \<noteq> h" by simp
  have "\<not> (\<exists>tm0. timers s h0 = Some tm0 \<and> seen_of (callback tm0) = Some h)"
    using handles_okD(3) [OF assms(1)] assms(2,3) by fastforce
  with fire_timers [of h0 s h] ne assms(2) have "timers (fire h0 s) h = timers s h" by auto
  with assms Fire show ?thesis by (simp add: fire_frame)
next
  case (Settle p out)
  with assms show ?thesis by (simp add: settle_frame)
qed

lemma timeout_stays_run:
  assumes "handles_ok s" "timers s h = Some tm" "\<not> repeats tm" "h < next_timer s"
      and "Fire h \<notin> set es"
  shows "timers (run es s) h = Some tm"
  using assms
proof (induction es arbitrary: s)
  case Nil
  then show ?case by simp
next
  case (Cons e es)
  from Cons.prems have ne: "e \<noteq> Fire h" and rest: "Fire h \<notin> set es" by auto
  from timeout_stays_step [OF Cons.prems(1-4) ne]
  have "timers (step e s) h = Some tm" "h < next_timer (step e s)" by simp_all
  with Cons.IH [OF handles_ok_step [OF Cons.prems(1)] _ Cons.prems(3) _ rest]
  show ?case by simp
qed

section \<open>The claims\<close>

subsection \<open>C1: sessions that fade in, and the marker\<close>

text \<open>
  C1, as the claim states it, fails: \<open>audio\<close> is a state of each track's component, and
  \<open>play\<close> tests only its own. After \<open>play\<close> on track a and \<open>play\<close> on track b (focus on
  one row, pointer over another) both components hold a session at volume 0 with its
  fade-in interval registered.
\<close>

theorem two_tracks_fade_in_counterexample:
  "fading_in (run [Play track_a, Play track_b] init) ''a'' \<and>
   fading_in (run [Play track_a, Play track_b] init) ''b'' \<and>
   audio (comps (run [Play track_a, Play track_b] init) ''a'') = Some 0 \<and>
   audio (comps (run [Play track_a, Play track_b] init) ''b'') = Some 1"
  by (simp add: fading_in_def play_fresh init_def init_component_def)

text \<open>
  C1, amended. After every sequence of events: the active-track marker is one value, empty
  or the id of a track whose component holds a session; every registered fade-in interval
  is the \<open>fadeIn\<close> handle of a component whose session is the element it fades in (so
  none survives the \<open>stop\<close> of its session); no two components share an element; hence
  an element has at most one registered fade-in interval, and a track at most one session
  fading in. Sessions of different tracks may fade in at the same time.
\<close>

theorem one_fade_in_per_session:
  "(activeTrack (run es init) = [] \<or>
      audio (comps (run es init) (activeTrack (run es init))) \<noteq> None) \<and>
   (\<forall>h a. fade_in_of (timers (run es init) h) = Some a \<longrightarrow>
      (\<exists>t. audio (comps (run es init) t) = Some a \<and> fadeIn (comps (run es init) t) = Some h)) \<and>
   (\<forall>t t' a. audio (comps (run es init) t) = Some a \<and> audio (comps (run es init) t') = Some a
      \<longrightarrow> t = t') \<and>
   (\<forall>a h h'. fade_in_of (timers (run es init) h) = Some a \<and>
              fade_in_of (timers (run es init) h') = Some a \<longrightarrow> h = h')"
proof -
  define s where "s = run es init"
  have ok: "sessions_ok s"
    unfolding s_def by (intro sessions_ok_run sessions_ok_init)
  then have own: "\<forall>h a. fade_in_of (timers s h) = Some a \<longrightarrow>
      (\<exists>t. audio (comps s t) = Some a \<and> fadeIn (comps s t) = Some h)"
    and uniq: "\<forall>t t' a. audio (comps s t) = Some a \<and> audio (comps s t') = Some a \<longrightarrow> t = t'"
    and mark: "activeTrack s \<noteq> [] \<longrightarrow> audio (comps s (activeTrack s)) \<noteq> None"
    by (simp_all add: sessions_ok_def)
  have one: "\<forall>a h h'. fade_in_of (timers s h) = Some a \<and> fade_in_of (timers s h') = Some a
      \<longrightarrow> h = h'"
  proof (intro allI impI, elim conjE)
    fix a h h'
    assume 1: "fade_in_of (timers s h) = Some a" and 2: "fade_in_of (timers s h') = Some a"
    from own 1 obtain t where t: "audio (comps s t) = Some a" "fadeIn (comps s t) = Some h"
      by blast
    from own 2 obtain t' where t': "audio (comps s t') = Some a" "fadeIn (comps s t') = Some h'"
      by blast
    from uniq t(1) t'(1) have "t = t'" by blast
    with t t' show "h = h'" by simp
  qed
  from mark have "activeTrack s = [] \<or> audio (comps s (activeTrack s)) \<noteq> None" by blast
  with own uniq one show ?thesis unfolding s_def by (intro conjI)
qed

theorem one_fade_in_per_session_witness:
  "fade_in_of (timers (run [Play track_a, Play track_b] init) 2) = Some 1 \<and>
   (\<exists>t. audio (comps (run [Play track_a, Play track_b] init) t) = Some 1 \<and>
        fadeIn (comps (run [Play track_a, Play track_b] init) t) = Some 2) \<and>
   activeTrack (run [Play track_a, Play track_b] init) = ''b'' \<and>
   audio (comps (run [Play track_a, Play track_b] init) ''b'') \<noteq> None"
proof -
  let ?s = "run [Play track_a, Play track_b] init"
  note T = one_fade_in_per_session [of "[Play track_a, Play track_b]"]
  have h: "fade_in_of (timers ?s 2) = Some 1" and m: "activeTrack ?s = ''b''"
    by (simp_all add: play_fresh init_def init_component_def)
  from T [THEN conjunct2, THEN conjunct1] h
  have ex: "\<exists>t. audio (comps ?s t) = Some 1 \<and> fadeIn (comps ?s t) = Some 2"
    by blast
  from T [THEN conjunct1]
  have "activeTrack ?s = [] \<or> audio (comps ?s (activeTrack ?s)) \<noteq> None" .
  then have "audio (comps ?s ''b'') \<noteq> None" unfolding m by simp
  with h ex m show ?thesis by (intro conjI)
qed

subsection \<open>C2: the fade-in interval does not cancel itself\<close>

text \<open>
  C2. The claim is that the fade-in handler clears its own interval once the volume is 1.0.
  The handler clears \<open>fadeIn\<close>, the value of the state variable at the render in which
  \<open>play\<close> ran, and \<open>setFadeIn(timer)\<close> comes after the handler is created; so the
  handle it holds is never the one \<open>setInterval\<close> has just returned. Below: in every
  reachable state \<open>s\<close> and for every \<open>play\<close> that starts a session there, the handle
  in the closure differs from the interval's own, and the interval is still registered
  after any number \<open>n\<close> of its own ticks, while the volume is the double nearest to
  \<open>min(1, n * 0.05)\<close>; the ticks past the twentieth go on at volume 1.0, until \<open>stop\<close>
  clears the interval.
\<close>

theorem fade_in_never_cancels_itself:
  assumes "s = run es init"
      and "preview_url tr = Some url" "url \<noteq> []" "audio (comps s (track_id tr)) = None"
  shows "timers (run (Play tr # replicate n (Fire (next_timer s))) s) (next_timer s) =
           Some \<lparr>callback = FadeInTick (next_audio s) (fadeIn (comps s (track_id tr))),
                 delay = 100, repeats = True\<rparr> \<and>
         fadeIn (comps s (track_id tr)) \<noteq> Some (next_timer s) \<and>
         volume (audios (run (Play tr # replicate n (Fire (next_timer s))) s) (next_audio s))
           = grid (min 20 n)"
proof -
  let ?cb = "FadeInTick (next_audio s) (fadeIn (comps s (track_id tr)))"
  have "\<forall>t h. fadeIn (comps s t) = Some h \<longrightarrow> h < next_timer s"
    unfolding assms(1) by (intro fadeIn_below_run fadeIn_below_init)
  then have stale: "fadeIn (comps s (track_id tr)) \<noteq> Some (next_timer s)" by auto
  have t: "timers (play tr s) (next_timer s) = Some \<lparr>callback = ?cb, delay = 100, repeats = True\<rparr>"
    using assms by (simp add: play_fresh)
  have v: "volume (audios (play tr s) (next_audio s)) = grid 0"
    using assms by (simp add: play_fresh)
  from fires_are_ticks [OF t stale, of n]
  have r: "run (replicate n (Fire (next_timer s))) (play tr s) = (run_callback ?cb ^^ n) (play tr s)"
    and k: "timers (run (replicate n (Fire (next_timer s))) (play tr s)) (next_timer s)
              = timers (play tr s) (next_timer s)"
    by blast+
  from fade_in_ticks_grid [OF v, where n = n and seen = "fadeIn (comps s (track_id tr))"]
  have "volume (audios ((run_callback ?cb ^^ n) (play tr s)) (next_audio s)) = grid (min 20 n)"
    by simp
  with r k t stale show ?thesis by (simp only: run.simps step.simps) simp
qed

theorem fade_in_never_cancels_itself_witness:
  "timers (run (Play track_a # replicate 25 (Fire 1)) init) 1
     = Some \<lparr>callback = FadeInTick 0 None, delay = 100, repeats = True\<rparr> \<and>
   volume (audios (run (Play track_a # replicate 25 (Fire 1)) init) 0) = 1"
  using fade_in_never_cancels_itself [of init "[]" track_a "''http://x/a.mp3''" 25]
  by (simp add: init_def init_component_def)

subsection \<open>C3: a late success callback is applied all the same\<close>

text \<open>
  C3, as the claim states it, fails: the \<open>then\<close> callback makes no test of the session.
  In the run below track b is played while the advisory flag is set, fades in for two
  ticks and is stopped, and track a is played again; the success of b's request then
  arrives. Component b holds no session, yet the acknowledgement toast is shown and the
  flag is cleared.
\<close>

theorem late_success_counterexample:
  "audio (comps (run [Play track_a, Settle 0 (Rejected chrome_not_interacted), Stop ''a'',
                      Play track_b, Fire 4, Fire 4, Stop ''b'', Play track_a] init) ''b'') = None \<and>
   toasts (run [Play track_a, Settle 0 (Rejected chrome_not_interacted), Stop ''a'',
                Play track_b, Fire 4, Fire 4, Stop ''b'', Play track_a] init)
     = [Toast msg_click_anywhere] \<and>
   toasts (run [Play track_a, Settle 0 (Rejected chrome_not_interacted), Stop ''a'',
                Play track_b, Fire 4, Fire 4, Stop ''b'', Play track_a, Settle 1 Resolved] init)
     = [Toast msg_click_anywhere, ToastSuccess msg_good_to_go] \<and>
   interactableNotified (run [Play track_a, Settle 0 (Rejected chrome_not_interacted), Stop ''a'',
                Play track_b, Fire 4, Fire 4, Stop ''b'', Play track_a] init) \<and>
   \<not> interactableNotified (run [Play track_a, Settle 0 (Rejected chrome_not_interacted),
                Stop ''a'', Play track_b, Fire 4, Fire 4, Stop ''b'', Play track_a,
                Settle 1 Resolved] init)"
  by (simp add: play_fresh stop_active settle_not_interacted settle_resolved fire_def host_defs
        tick_simps init_def init_component_def)

text \<open>
  C3, amended. A success callback is applied without any test that its session is still
  the active one: whenever the promise resolves, it sets \<open>interactable\<close> in its component
  and, if \<open>interactableNotified\<close> was set when \<open>play\<close> ran, clears that flag and shows the
  acknowledgement once. It touches no audio element, no timer, no session handle and not
  the active-track marker, and it commutes with \<open>stop\<close>: the state is the same whether
  the callback runs before or after the session is stopped.
\<close>

theorem late_success_applies:
  assumes "promises s p = Some cl"
  shows "interactable (comps (settle p Resolved s) (owner cl)) \<and>
         toasts (settle p Resolved s)
           = toasts s @ (if notified_seen cl then [ToastSuccess msg_good_to_go] else []) \<and>
         interactableNotified (settle p Resolved s)
           = (interactableNotified s \<and> \<not> notified_seen cl) \<and>
         audios (settle p Resolved s) = audios s \<and>
         timers (settle p Resolved s) = timers s \<and>
         activeTrack (settle p Resolved s) = activeTrack s \<and>
         (\<forall>t. audio (comps (settle p Resolved s) t) = audio (comps s t)) \<and>
         (\<forall>t. settle p Resolved (stop t s) = stop t (settle p Resolved s))"
  using assms by (simp add: settle_frame stop_settle_commute) (simp add: settle_resolved)

theorem late_success_applies_witness:
  "toasts (run [Play track_a, Settle 0 (Rejected chrome_not_interacted), Stop ''a'',
                Play track_b, Stop ''b'', Settle 1 Resolved] init)
     = [Toast msg_click_anywhere, ToastSuccess msg_good_to_go]"
  using late_success_applies [of
     "run [Play track_a, Settle 0 (Rejected chrome_not_interacted), Stop ''a'',
           Play track_b, Stop ''b''] init"
     1 "\<lparr>owner = ''b'', notified_seen = True\<rparr>"]
  by (simp add: play_fresh stop_active settle_not_interacted init_def init_component_def)

subsection \<open>C4: the volume during the fades\<close>




subsection \<open>C5: play does nothing for a track that has a session or has no preview\<close>

text \<open>
  C5. \<open>play\<close> (the spec's \<open>start(trackId, previewUrl)\<close>) is a no-op when the component of
  the track already holds a session (\<open>audio\<close> is non-null) or when the track has no
  preview URL (null, or the empty string, which is falsy as well): the whole state is
  returned as it was, so no audio element is created
  (\<open>next_audio\<close> and the store are the same) and the active-track marker is unchanged.
\<close>

theorem play_noop:
  assumes "audio (comps s (track_id tr)) \<noteq> None \<or> preview_url tr = None \<or>
           preview_url tr = Some []"
  shows "play tr s = s \<and> next_audio (play tr s) = next_audio s \<and>
         audios (play tr s) = audios s \<and> activeTrack (play tr s) = activeTrack s"
proof -
  from assms have "play tr s = s" by (rule play_skip)
  then show ?thesis by simp
qed

theorem play_noop_witness:
  "play track_a (play track_a init) = play track_a init \<and>
   next_audio (play track_a init) = 1 \<and>
   play track_c init = init"
  using play_noop [of "play track_a init" track_a] play_noop [of init track_c]
  by (simp add: play_fresh init_def init_component_def)

subsection \<open>C6: stop is idempotent\<close>

text \<open>
  C6. \<open>stop\<close> on a component with no session returns the state as it was (no timer is
  registered, the marker is not touched, no pause is scheduled), and a second \<open>stop\<close>
  right after a first changes nothing more.
\<close>

theorem stop_idempotent:
  "(audio (comps s t) = None \<longrightarrow> stop t s = s) \<and> stop t (stop t s) = stop t s"
  by (simp add: stop_skip stop_clears_audio)

theorem stop_idempotent_witness:
  "stop ''a'' init = init \<and>
   stop ''a'' (stop ''a'' (play track_a init)) = stop ''a'' (play track_a init) \<and>
   next_timer (stop ''a'' (play track_a init)) = 4"
  using stop_idempotent [of init "''a''"] stop_idempotent [of "play track_a init" "''a''"]
  by (simp add: play_fresh stop_active init_def init_component_def)

subsection \<open>C7: the advisory and the acknowledgement\<close>

text \<open>
  C7. The claim is that the advisory is shown once and that the acknowledgement fires once.
  The flag \<open>interactableNotified\<close> is there to do that, but each callback tests the value
  that \<open>play\<close> saw, not the current one. So when two play requests are in flight together
  (each made before either promise settles) both callbacks act on the same stale value:
  made while the flag is set and both successful, both show the acknowledgement; made
  while it is clear and both rejected for lack of interaction, both show the advisory.
  The run after the theorem is plain hovering after one advisory: over track a for one
  tick, off it, over track b, and both loads finish.
\<close>

theorem overlapping_requests_repeat_toast:
  assumes "preview_url tr1 = Some u1" "u1 \<noteq> []" "audio (comps s (track_id tr1)) = None"
      and "list_all (\<lambda>e. \<not> is_settle e) es1"
      and "preview_url tr2 = Some u2" "u2 \<noteq> []"
      and "audio (comps (run (Play tr1 # es1) s) (track_id tr2)) = None"
      and "list_all (\<lambda>e. \<not> is_settle e) es2"
      and "includes_str message msg_not_interacted"
  shows "toasts (run (Play tr1 # es1 @ Play tr2 # es2 @
            [Settle (next_audio s) Resolved,
             Settle (next_audio (run (Play tr1 # es1) s)) Resolved]) s)
           = toasts s @ (if interactableNotified s
                         then [ToastSuccess msg_good_to_go, ToastSuccess msg_good_to_go] else []) \<and>
         toasts (run (Play tr1 # es1 @ Play tr2 # es2 @
            [Settle (next_audio s) (Rejected message),
             Settle (next_audio (run (Play tr1 # es1) s)) (Rejected message)]) s)
           = toasts s @ (if interactableNotified s
                         then [] else [Toast msg_click_anywhere, Toast msg_click_anywhere])"
proof -
  let ?p1 = "next_audio s"
  let ?sA = "play tr1 s"
  let ?s1 = "run es1 ?sA"
  let ?p2 = "next_audio ?s1"
  let ?sB = "play tr2 ?s1"
  let ?s2 = "run es2 ?sB"
  let ?F = "interactableNotified s"
  have s1: "run (Play tr1 # es1) s = ?s1" by simp
  have A: "promises ?sA ?p1 = Some \<lparr>owner = track_id tr1, notified_seen = ?F\<rparr>"
    "toasts ?sA = toasts s" "interactableNotified ?sA = ?F" "next_audio ?sA = Suc ?p1"
    using assms(1-3) by (simp_all add: play_fresh)
  have lt1: "?p1 < next_audio ?sA" by (simp add: A)
  from quiet_run [OF assms(4) lt1] A
  have S1: "promises ?s1 ?p1 = Some \<lparr>owner = track_id tr1, notified_seen = ?F\<rparr>"
    "toasts ?s1 = toasts s" "interactableNotified ?s1 = ?F"
    by simp_all
  from quiet_run_next [OF assms(4), of ?sA] have lt2: "?p1 < ?p2" by (simp add: A)
  have n2: "audio (comps ?s1 (track_id tr2)) = None" using assms(7) by simp
  have B: "promises ?sB ?p2 = Some \<lparr>owner = track_id tr2, notified_seen = ?F\<rparr>"
    "promises ?sB ?p1 = Some \<lparr>owner = track_id tr1, notified_seen = ?F\<rparr>"
    "toasts ?sB = toasts s" "interactableNotified ?sB = ?F" "next_audio ?sB = Suc ?p2"
    using lt2 S1 by (simp_all add: play_fresh [OF assms(5,6) n2])
  have "?p1 < next_audio ?sB" "?p2 < next_audio ?sB" using lt2 by (simp_all add: B)
  from quiet_run [OF assms(8) this(1)] quiet_run [OF assms(8) this(2)] B
  have S2: "promises ?s2 ?p1 = Some \<lparr>owner = track_id tr1, notified_seen = ?F\<rparr>"
    "promises ?s2 ?p2 = Some \<lparr>owner = track_id tr2, notified_seen = ?F\<rparr>"
    "toasts ?s2 = toasts s" "interactableNotified ?s2 = ?F"
    by simp_all
  have R1: "promises (settle ?p1 Resolved ?s2) ?p2
              = Some \<lparr>owner = track_id tr2, notified_seen = ?F\<rparr>"
    "toasts (settle ?p1 Resolved ?s2) = toasts s @ (if ?F then [ToastSuccess msg_good_to_go] else [])"
    using lt2 S2 by (simp_all add: settle_resolved [OF S2(1)])
  have R2: "toasts (settle ?p2 Resolved (settle ?p1 Resolved ?s2))
      = toasts s @ (if ?F then [ToastSuccess msg_good_to_go, ToastSuccess msg_good_to_go] else [])"
    using R1(2) by (simp add: settle_resolved [OF R1(1)])
  have J1: "promises (settle ?p1 (Rejected message) ?s2) ?p2
              = Some \<lparr>owner = track_id tr2, notified_seen = ?F\<rparr>"
    "toasts (settle ?p1 (Rejected message) ?s2)
       = toasts s @ (if ?F then [] else [Toast msg_click_anywhere])"
    using lt2 S2 by (simp_all add: settle_not_interacted [OF S2(1) assms(9)])
  have J2: "toasts (settle ?p2 (Rejected message) (settle ?p1 (Rejected message) ?s2))
      = toasts s @ (if ?F then [] else [Toast msg_click_anywhere, Toast msg_click_anywhere])"
    using J1(2) by (simp add: settle_not_interacted [OF J1(1) assms(9)])
  show ?thesis
    unfolding s1 using R2 J2 by (simp add: run_append)
qed

theorem overlapping_requests_repeat_toast_witness:
  "interactableNotified (run [Play track_a, Settle 0 (Rejected chrome_not_interacted),
                              Stop ''a''] init) \<and>
   toasts (run [Play track_a, Settle 0 (Rejected chrome_not_interacted), Stop ''a'',
                Play track_a, Fire 4, Stop ''a'', Play track_b,
                Settle 1 Resolved, Settle 2 Resolved] init)
     = [Toast msg_click_anywhere, ToastSuccess msg_good_to_go, ToastSuccess msg_good_to_go]"
proof -
  let ?s = "run [Play track_a, Settle 0 (Rejected chrome_not_interacted), Stop ''a''] init"
  have f: "interactableNotified ?s" "toasts ?s = [Toast msg_click_anywhere]"
    "audio (comps ?s ''a'') = None" "next_audio ?s = 1"
    by (simp_all add: play_fresh stop_active settle_not_interacted init_def init_component_def)
  have m: "audio (comps (run (Play track_a # [Fire 4, Stop ''a'']) ?s) ''b'') = None"
    "next_audio (run (Play track_a # [Fire 4, Stop ''a'']) ?s) = 2"
    by (simp_all add: play_fresh stop_active settle_not_interacted fire_def host_defs
          init_def init_component_def tick_simps)
  have h3: "audio (comps ?s (track_id track_a)) = None"
    using f(3) by (simp only: track_a_simps)
  have h7: "audio (comps (run (Play track_a # [Fire 4, Stop ''a'']) ?s) (track_id track_b)) = None"
    using m(1) by (simp only: track_b_simps)
  have "toasts (run (Play track_a # [Fire 4, Stop ''a''] @ Play track_b # [] @
            [Settle (next_audio ?s) Resolved,
             Settle (next_audio (run (Play track_a # [Fire 4, Stop ''a'']) ?s)) Resolved]) ?s)
           = toasts ?s @ (if interactableNotified ?s
                         then [ToastSuccess msg_good_to_go, ToastSuccess msg_good_to_go] else [])"
    by (rule overlapping_requests_repeat_toast [OF track_a_simps(2) _ h3 _ track_b_simps(2) _ h7 _
          chrome_not_interacted_class, THEN conjunct1]) simp_all
  then show ?thesis
    by (simp add: play_fresh stop_active settle_not_interacted settle_resolved fire_def host_defs
          init_def init_component_def tick_simps)
qed

subsection \<open>C8: a rejection by an interrupting pause is silent\<close>

text \<open>
  C8. When the promise of \<open>play()\<close> is rejected with a message that says the request was
  interrupted by a call to pause() (and that the code has not already taken for the
  missing-interaction message, which it tests first), the \<open>catch\<close> callback shows no toast
  and changes nothing: the only difference is that the promise is no longer pending.
\<close>

theorem interrupted_is_silent:
  assumes "includes_str message msg_interrupted"
      and "\<not> includes_str message msg_not_interacted"
      and "promises s p = Some cl"
  shows "settle p (Rejected message) s = s\<lparr>promises := (promises s)(p := None)\<rparr> \<and>
         toasts (settle p (Rejected message) s) = toasts s"
  using assms by (simp add: settle_def catch_cb_def)

theorem interrupted_is_silent_witness:
  "paused (audios (run [Play track_a, Stop ''a'', Fire 3] init) 0) \<and>
   toasts (run [Play track_a, Stop ''a'', Fire 3, Settle 0 (Rejected chrome_interrupted)] init)
     = []"
  using interrupted_is_silent [of chrome_interrupted
     "run [Play track_a, Stop ''a'', Fire 3] init" 0 "\<lparr>owner = ''a'', notified_seen = False\<rparr>"]
  by (simp add: play_fresh stop_active fire_def host_defs init_def init_component_def)

subsection \<open>C9: stop schedules the deferred pause\<close>

text \<open>
  C9. When \<open>stop\<close> begins a fade-out of the element \<open>a\<close> whose volume is \<open>v\<close>, it
  registers a one-shot timer whose callback pauses \<open>a\<close> and whose delay is the value of
  the source's expression \<open>(v / 0.05) * 100\<close>, computed in doubles as the code computes
  it. The release is guaranteed: in every reachable state, whatever events follow \<open>stop\<close>
  (the decrement interval may fire any number of times, or never), the timer stays
  registered until it fires, and when it fires the element is paused. At volume 0.15 the
  delay is \<open>5277655813324799 / 2 ^ 44\<close>, that is 299.99999999999994.
\<close>

theorem stop_schedules_pause:
  assumes "s = run es init" "audio (comps s t) = Some a" "Fire (Suc (next_timer s)) \<notin> set es'"
  shows "timers (stop t s) (Suc (next_timer s)) =
           Some \<lparr>callback = PauseOnce a,
                 delay = js_mul (js_div (volume (audios s a)) c005) 100, repeats = False\<rparr> \<and>
         timers (run es' (stop t s)) (Suc (next_timer s)) =
           Some \<lparr>callback = PauseOnce a,
                 delay = js_mul (js_div (volume (audios s a)) c005) 100, repeats = False\<rparr> \<and>
         paused (audios (run (es' @ [Fire (Suc (next_timer s))]) (stop t s)) a) \<and>
         (\<forall>s' h tm. timers s' h = Some tm \<and> callback tm = PauseOnce a
            \<longrightarrow> paused (audios (fire h s') a))"
proof -
  let ?h = "Suc (next_timer s)"
  let ?tm = "\<lparr>callback = PauseOnce a,
               delay = js_mul (js_div (volume (audios s a)) c005) 100, repeats = False\<rparr>"
  have ok: "handles_ok (stop t s)"
    unfolding assms(1) by (intro handles_ok_stop handles_ok_run handles_ok_init)
  have reg: "timers (stop t s) ?h = Some ?tm" and nt: "?h < next_timer (stop t s)"
    using assms(2) by (simp_all add: stop_active)
  have stay: "timers (run es' (stop t s)) ?h = Some ?tm"
    using ok reg _ nt assms(3) by (rule timeout_stays_run) simp
  have fire: "paused (audios (fire h s') a)" if "timers s' h = Some tm" "callback tm = PauseOnce a"
    for s' h tm
    using that by (simp add: fire_def host_defs)
  have "paused (audios (fire ?h (run es' (stop t s))) a)"
    using stay by (rule fire) simp
  then have "paused (audios (run (es' @ [Fire ?h]) (stop t s)) a)"
    by (simp add: run_append)
  with reg stay fire show ?thesis by blast
qed

theorem stop_schedules_pause_witness:
  "timers (run [Play track_a, Fire 1, Fire 1, Fire 1, Stop ''a''] init) 3
     = Some \<lparr>callback = PauseOnce 0, delay = 5277655813324799 / 2 ^ 44, repeats = False\<rparr> \<and>
   (5277655813324799 / 2 ^ 44 :: rat) < 300 \<and>
   paused (audios (run [Play track_a, Fire 1, Fire 1, Fire 1, Stop ''a'',
                        Play track_b, Fire 2, Fire 2, Fire 3] init) 0)"
proof -
  let ?s = "run [Play track_a, Fire 1, Fire 1, Fire 1] init"
  have s: "?s = run [Play track_a, Fire 1, Fire 1, Fire 1] init" ..
  have a: "audio (comps ?s ''a'') = Some 0" and n: "next_timer ?s = 2"
    and v: "volume (audios ?s 0) = grid 3"
    by (simp_all add: play_fresh fire_def host_defs init_def init_component_def tick_simps
          eval_nat_numeral)
  have q: "Fire (Suc (next_timer ?s)) \<notin> set [Play track_b, Fire 2, Fire 2]"
    unfolding n by simp
  note T = stop_schedules_pause [OF s a q]
  from T [THEN conjunct1]
  have 1: "timers (run [Play track_a, Fire 1, Fire 1, Fire 1, Stop ''a''] init) 3
     = Some \<lparr>callback = PauseOnce 0, delay = 5277655813324799 / 2 ^ 44, repeats = False\<rparr>"
    unfolding n v delay_at_015 by (simp add: eval_nat_numeral)
  from T [THEN conjunct2, THEN conjunct2, THEN conjunct1]
  have 2: "paused (audios (run [Play track_a, Fire 1, Fire 1, Fire 1, Stop ''a'',
                        Play track_b, Fire 2, Fire 2, Fire 3] init) 0)"
    unfolding n by (simp add: run_append eval_nat_numeral)
  have 3: "(5277655813324799 / 2 ^ 44 :: rat) < 300" by simp
  from 1 3 2 show ?thesis by (intro conjI)
qed

subsection \<open>C10: stop, then play of the same track\<close>

text \<open>
  C10. After \<open>stop\<close> on a track that holds a session on the element \<open>a\<close>, a \<open>play\<close> of
  the same track is not a no-op: the guard finds \<open>audio\<close> null, a fresh element is created
  and becomes the session, while the old element is exactly as \<open>stop\<close> left it (not
  paused, at its volume) with its fade-out interval registered. In the run that follows
  the theorem both elements of track a are unpaused, at the doubles nearest to 0.15 and
  0.05.
\<close>

theorem restart_overlaps:
  assumes "audio (comps s (track_id tr)) = Some a" "a < next_audio s"
      and "preview_url tr = Some url" "url \<noteq> []"
  shows "play tr (stop (track_id tr) s) \<noteq> stop (track_id tr) s \<and>
         audio (comps (play tr (stop (track_id tr) s)) (track_id tr)) = Some (next_audio s) \<and>
         next_audio s \<noteq> a \<and>
         audios (play tr (stop (track_id tr) s)) (next_audio s)
           = \<lparr>src = url, volume = 0, paused = False\<rparr> \<and>
         audios (play tr (stop (track_id tr) s)) a = audios s a \<and>
         timers (play tr (stop (track_id tr) s)) (next_timer s)
           = Some \<lparr>callback = FadeOutTick a (fadeOut (comps s (track_id tr))),
                   delay = 100, repeats = True\<rparr>"
proof -
  let ?s = "stop (track_id tr) s"
  have n: "audio (comps ?s (track_id tr)) = None" by (rule stop_clears_audio)
  have f: "next_audio ?s = next_audio s" "audios ?s = audios s"
          "next_timer ?s = Suc (Suc (next_timer s))"
          "timers ?s (next_timer s) = Some \<lparr>callback = FadeOutTick a (fadeOut (comps s (track_id tr))),
                   delay = 100, repeats = True\<rparr>"
    using assms(1) by (simp_all add: stop_active)
  have neq: "next_audio (play tr ?s) \<noteq> next_audio ?s"
    by (simp add: play_fresh [OF assms(3,4) n])
  then have "play tr ?s \<noteq> ?s" by auto
  then show ?thesis
    using assms(2) f by (simp add: play_fresh [OF assms(3,4) n])
qed

theorem restart_overlaps_witness:
  "src (audios (run [Play track_a, Settle 0 Resolved, Fire 1, Fire 1, Fire 1, Stop ''a'',
                     Play track_a, Settle 1 Resolved, Fire 4] init) 0)
     = src (audios (run [Play track_a, Settle 0 Resolved, Fire 1, Fire 1, Fire 1, Stop ''a'',
                     Play track_a, Settle 1 Resolved, Fire 4] init) 1)
   \<and> audios (run [Play track_a, Settle 0 Resolved, Fire 1, Fire 1, Fire 1, Stop ''a'',
                     Play track_a, Settle 1 Resolved, Fire 4] init) 0
       = \<lparr>src = ''http://x/a.mp3'', volume = grid 3, paused = False\<rparr>
   \<and> audios (run [Play track_a, Settle 0 Resolved, Fire 1, Fire 1, Fire 1, Stop ''a'',
                     Play track_a, Settle 1 Resolved, Fire 4] init) 1
       = \<lparr>src = ''http://x/a.mp3'', volume = grid 1, paused = False\<rparr> \<and>
   0 < grid 1 \<and> grid 1 < grid 3"
  using restart_overlaps [where tr = track_a and a = 0 and url = "''http://x/a.mp3''"
     and s = "run [Play track_a, Settle 0 Resolved, Fire 1, Fire 1, Fire 1] init"]
  by (simp add: play_fresh stop_active settle_resolved fire_def host_defs tick_simps
        grid_strict init_def init_component_def eval_nat_numeral)

end
